theory Spec2Isabelle
  imports Complex_Main "HOL-Library.Word" "HOL-Library.Sublist"
begin

section \<open>Data as the program has it\<close>

text \<open>
  A JavaScript string is a sequence of 16-bit UTF-16 code units; a Node \<open>Buffer\<close> is a
  sequence of bytes. String literals of the source that are pure ASCII are written with
  \<open>js\<close>, which maps every character of an Isabelle literal to its code unit.
\<close>

type_synonym byte = "8 word"
type_synonym unit16 = "16 word"
type_synonym jsstring = "unit16 list"

definition js :: "string \<Rightarrow> jsstring" where
  "js s = map (\<lambda>c. of_nat (of_char c)) s"

subsection \<open>String primitives of the runtime\<close>

text \<open>
  \<open>String.prototype.trim\<close> removes leading and trailing code units that are WhiteSpace
  or LineTerminator in ECMAScript: TAB, LF, VT, FF, CR, SPACE, NBSP, U+1680,
  U+2000..U+200A, U+2028, U+2029, U+202F, U+205F, U+3000 and U+FEFF.
\<close>

definition isWhiteSpace :: "unit16 \<Rightarrow> bool" where
  "isWhiteSpace u \<longleftrightarrow>
     (0x09 \<le> u \<and> u \<le> 0x0D) \<or> u = 0x20 \<or> u = 0xA0 \<or> u = 0x1680 \<or>
     (0x2000 \<le> u \<and> u \<le> 0x200A) \<or> u = 0x2028 \<or> u = 0x2029 \<or> u = 0x202F \<or>
     u = 0x205F \<or> u = 0x3000 \<or> u = 0xFEFF"

definition trim :: "jsstring \<Rightarrow> jsstring" where
  "trim s = rev (dropWhile isWhiteSpace (rev (dropWhile isWhiteSpace s)))"

text \<open>\<open>Array.prototype.join\<close>: the empty array joins to the empty string.\<close>

fun join :: "jsstring \<Rightarrow> jsstring list \<Rightarrow> jsstring" where
  "join sep [] = []"
| "join sep [x] = x"
| "join sep (x # y # ys) = x @ sep @ join sep (y # ys)"

text \<open>
  \<open>value.split(/\r?\n/)\<close>: scanning from the left, a line feed ends the current piece,
  and so does a carriage return that is directly followed by a line feed (the pair is
  one separator). A carriage return not followed by a line feed stays in the piece. The
  empty string splits into one empty piece.
\<close>

fun splitLines :: "jsstring \<Rightarrow> jsstring \<Rightarrow> jsstring list" where
  "splitLines cur [] = [cur]"
| "splitLines cur [c] = (if c = 0x0A then [cur, []] else [cur @ [c]])"
| "splitLines cur (c # d # cs) =
     (if c = 0x0A then cur # splitLines [] (d # cs)
      else if c = 0x0D \<and> d = 0x0A then cur # splitLines [] cs
      else splitLines (cur @ [c]) (d # cs))"


subsection \<open>UTF-8 as Node encodes and decodes it\<close>

text \<open>
  \<open>Buffer.from(text, "utf8")\<close> and \<open>Buffer.byteLength(text, "utf8")\<close> read the string by
  code points: a high surrogate directly followed by a low surrogate is one
  supplementary code point, any other code unit stands for itself. A lone surrogate is
  encoded as U+FFFD (EF BF BD).
\<close>

definition isHigh :: "unit16 \<Rightarrow> bool" where
  "isHigh u \<longleftrightarrow> 0xD800 \<le> u \<and> u \<le> 0xDBFF"

definition isLow :: "unit16 \<Rightarrow> bool" where
  "isLow u \<longleftrightarrow> 0xDC00 \<le> u \<and> u \<le> 0xDFFF"

fun codePoints :: "jsstring \<Rightarrow> nat list" where
  "codePoints [] = []"
| "codePoints [u] = [unat u]"
| "codePoints (u # v # us) =
     (if isHigh u \<and> isLow v
      then (0x10000 + (unat u - 0xD800) * 0x400 + (unat v - 0xDC00)) # codePoints us
      else unat u # codePoints (v # us))"

definition isSurrogate :: "nat \<Rightarrow> bool" where
  "isSurrogate c \<longleftrightarrow> 0xD800 \<le> c \<and> c \<le> 0xDFFF"

definition encodeCodePoint :: "nat \<Rightarrow> nat list" where
  "encodeCodePoint c =
     (if c < 0x80 then [c]
      else if c < 0x800 then [0xC0 + c div 0x40, 0x80 + c mod 0x40]
      else if isSurrogate c then [0xEF, 0xBF, 0xBD]
      else if c < 0x10000 then [0xE0 + c div 0x1000, 0x80 + c div 0x40 mod 0x40, 0x80 + c mod 0x40]
      else [0xF0 + c div 0x40000, 0x80 + c div 0x1000 mod 0x40, 0x80 + c div 0x40 mod 0x40,
            0x80 + c mod 0x40])"

definition utf8Encode :: "jsstring \<Rightarrow> byte list" where
  "utf8Encode s = map of_nat (concat (map encodeCodePoint (codePoints s)))"

definition byteLength :: "jsstring \<Rightarrow> nat" where
  "byteLength s = length (utf8Encode s)"

text \<open>
  \<open>buffer.toString("utf8")\<close> never fails: it decodes well-formed sequences and puts
  U+FFFD in place of every maximal ill-formed part (the rule of the Encoding Standard,
  which V8 follows). In particular a sequence cut short by the end of the buffer becomes
  one U+FFFD; it is not dropped. \<open>cont lo hi b\<close> says that \<open>b\<close> is an admissible next byte.
\<close>

definition cont :: "nat \<Rightarrow> nat \<Rightarrow> nat \<Rightarrow> bool" where
  "cont lo hi b \<longleftrightarrow> lo \<le> b \<and> b \<le> hi"

definition lower2 :: "nat \<Rightarrow> nat" where
  "lower2 b = (if b = 0xE0 then 0xA0 else if b = 0xF0 then 0x90 else 0x80)"

definition upper2 :: "nat \<Rightarrow> nat" where
  "upper2 b = (if b = 0xED then 0x9F else if b = 0xF4 then 0x8F else 0xBF)"

fun decodeCodePoints :: "nat list \<Rightarrow> nat list" where
  "decodeCodePoints [] = []"
| "decodeCodePoints (b # bs) =
     (if b < 0x80 then b # decodeCodePoints bs
      else if 0xC2 \<le> b \<and> b \<le> 0xDF then
        (case bs of
           c # r1 \<Rightarrow> if cont 0x80 0xBF c then ((b - 0xC0) * 0x40 + (c - 0x80)) # decodeCodePoints r1
                     else 0xFFFD # decodeCodePoints bs
         | [] \<Rightarrow> [0xFFFD])
      else if 0xE0 \<le> b \<and> b \<le> 0xEF then
        (case bs of
           c # r1 \<Rightarrow>
             if cont (lower2 b) (upper2 b) c then
               (case r1 of
                  d # r2 \<Rightarrow> if cont 0x80 0xBF d
                            then ((b - 0xE0) * 0x1000 + (c - 0x80) * 0x40 + (d - 0x80)) # decodeCodePoints r2
                            else 0xFFFD # decodeCodePoints r1
                | [] \<Rightarrow> [0xFFFD])
             else 0xFFFD # decodeCodePoints bs
         | [] \<Rightarrow> [0xFFFD])
      else if 0xF0 \<le> b \<and> b \<le> 0xF4 then
        (case bs of
           c # r1 \<Rightarrow>
             if cont (lower2 b) (upper2 b) c then
               (case r1 of
                  d # r2 \<Rightarrow>
                    if cont 0x80 0xBF d then
                      (case r2 of
                         e # r3 \<Rightarrow> if cont 0x80 0xBF e
                                   then ((b - 0xF0) * 0x40000 + (c - 0x80) * 0x1000 + (d - 0x80) * 0x40
                                         + (e - 0x80)) # decodeCodePoints r3
                                   else 0xFFFD # decodeCodePoints r2
                       | [] \<Rightarrow> [0xFFFD])
                    else 0xFFFD # decodeCodePoints r1
                | [] \<Rightarrow> [0xFFFD])
             else 0xFFFD # decodeCodePoints bs
         | [] \<Rightarrow> [0xFFFD])
      else 0xFFFD # decodeCodePoints bs)"

text \<open>A decoded code point becomes one code unit, or a surrogate pair above U+FFFF.\<close>

definition toUnits :: "nat \<Rightarrow> jsstring" where
  "toUnits c =
     (if c < 0x10000 then [of_nat c]
      else [of_nat (0xD800 + (c - 0x10000) div 0x400), of_nat (0xDC00 + (c - 0x10000) mod 0x400)])"

definition utf8Decode :: "byte list \<Rightarrow> jsstring" where
  "utf8Decode bs = concat (map toUnits (decodeCodePoints (map unat bs)))"

text \<open>
  \<open>buffer.subarray(0, end)\<close> and \<open>array.slice(0, end)\<close>: a negative \<open>end\<close> counts from the
  end of the sequence, and the result is clamped to the sequence.
\<close>

definition sliceTo :: "'a list \<Rightarrow> int \<Rightarrow> 'a list" where
  "sliceTo xs end = (if end < 0 then take (nat (int (length xs) + end)) xs else take (nat end) xs)"

section \<open>git.ts\<close>

subsection \<open>looksBinary\<close>

definition isControl :: "byte \<Rightarrow> bool" where
  "isControl b \<longleftrightarrow> b < 32 \<and> b \<noteq> 9 \<and> b \<noteq> 10 \<and> b \<noteq> 13"

text \<open>The counting loop \<open>for (let i = 0; i < sampleSize; i += 1)\<close>.\<close>

function countNonText :: "byte list \<Rightarrow> nat \<Rightarrow> nat \<Rightarrow> nat \<Rightarrow> nat" where
  "countNonText buffer sampleSize i nonTextCount =
     (if i < sampleSize
      then countNonText buffer sampleSize (i + 1)
             (if isControl (buffer ! i) then nonTextCount + 1 else nonTextCount)
      else nonTextCount)"
  by pat_completeness auto
termination
  by (relation "measure (\<lambda>(buffer, sampleSize, i, nonTextCount). sampleSize - i)") auto

text \<open>
  The final test is \<open>nonTextCount / sampleSize > 0.1\<close> on doubles. Both operands are
  integers up to 1024, and the nearest quotient above one tenth with such a denominator
  is further from it than the rounding of the division and of the literal can move
  either side, so the comparison agrees with the exact one, which is written here.
\<close>

definition looksBinary :: "byte list \<Rightarrow> bool" where
  "looksBinary buffer =
     (if length buffer = 0 then False
      else if 0 \<in> set buffer then True
      else let sampleSize = min (length buffer) 1024;
               nonTextCount = countNonText buffer sampleSize 0 0
           in real nonTextCount / real sampleSize > 1 / 10)"

subsection \<open>trimUtf8\<close>

definition truncationMarker :: jsstring where
  "truncationMarker = js ''\<newline>\<newline>[Diff truncated due to maxDiffBytes limit]''"

definition trimUtf8 :: "jsstring \<Rightarrow> int \<Rightarrow> jsstring \<times> bool" where
  "trimUtf8 text maxBytes =
     (let bytes = byteLength text in
      if int bytes \<le> maxBytes then (text, False)
      else let buffer = utf8Encode text;
               sliced = utf8Decode (sliceTo buffer maxBytes)
           in (sliced @ truncationMarker, True))"

subsection \<open>parseLines and uniqueLines\<close>

definition parseLines :: "jsstring \<Rightarrow> jsstring list" where
  "parseLines v = filter (\<lambda>line. length line > 0) (map (\<lambda>line. trim line) (splitLines [] v))"

text \<open>The loop of \<open>uniqueLines\<close>, with its \<open>seen\<close> set and its \<open>output\<close> array.\<close>

fun uniqueLinesLoop :: "jsstring list \<Rightarrow> jsstring set \<Rightarrow> jsstring list \<Rightarrow> jsstring list" where
  "uniqueLinesLoop [] seen output = output"
| "uniqueLinesLoop (line # lines) seen output =
     (if line \<in> seen then uniqueLinesLoop lines seen output
      else uniqueLinesLoop lines (insert line seen) (output @ [line]))"

definition uniqueLines :: "jsstring list \<Rightarrow> jsstring list" where
  "uniqueLines lines = uniqueLinesLoop lines {} []"

subsection \<open>The platform: child processes and the file system\<close>

text \<open>
  What \<open>execFile\<close> hands to its callback: the error (here its message) when the process
  exited non-zero, timed out or exceeded \<open>maxBuffer\<close>, and the two captured streams.
\<close>

datatype exec_result = ExecResult (error: "jsstring option") (stdout: jsstring) (stderr: jsstring)

text \<open>
  The platform answers each call. \<open>execFile\<close> takes the program, its argument vector,
  the working directory, the timeout and the buffer cap. \<open>stat\<close> and \<open>readFile\<close> either
  throw (\<open>Inl\<close>, the message of the error) or return (\<open>Inr\<close>): \<open>stat\<close> returns what
  \<open>isFile()\<close> will say. \<open>pathJoin\<close> is \<open>path.join\<close>. One collection issues every command
  and reads every path at most once, so a function of the arguments loses nothing.
\<close>

record platform =
  execFile :: "jsstring \<Rightarrow> jsstring list \<Rightarrow> jsstring \<Rightarrow> int \<Rightarrow> nat \<Rightarrow> exec_result"
  stat :: "jsstring \<Rightarrow> jsstring + bool"
  readFile :: "jsstring \<Rightarrow> jsstring + byte list"
  pathJoin :: "jsstring \<Rightarrow> jsstring \<Rightarrow> jsstring"

text \<open>
  The fields of \<open>ExtensionConfig\<close> and \<open>ChangeSnapshot\<close> that \<open>git.ts\<close> and the prompt
  builder read. Their declarations (\<open>types.ts\<close>) are not among the sources; the fields
  and their types are taken from the uses.
\<close>

datatype UiLanguage = Zh | En

record ExtensionConfig =
  language :: UiLanguage
  commandTimeoutMs :: int
  includeOnlyStaged :: bool
  maxChangedFiles :: int
  maxDiffBytes :: int
  truncateDiff :: bool
  systemPrompt :: jsstring
  ruleTemplate :: jsstring
  additionalRules :: jsstring

record ChangeSnapshot =
  status :: jsstring
  diff :: jsstring
  wasTruncated :: bool
  wasFileLimited :: bool
  totalChangedFiles :: nat
  includedChangedFiles :: nat

definition GIT_MAX_BUFFER_BYTES :: nat where
  "GIT_MAX_BUFFER_BYTES = 64 * 1024 * 1024"

subsection \<open>runGit\<close>

text \<open>
  A computation that awaits git commands carries the list of the argument vectors it
  has issued so far (the trace) and either the message of the \<open>Error\<close> it was rejected
  with (\<open>Inl\<close>) or its value (\<open>Inr\<close>). \<open>andThen\<close> is \<open>await\<close>: a rejection ends the caller.
\<close>

type_synonym trace = "jsstring list list"

definition andThen ::
  "trace \<times> (jsstring + 'a) \<Rightarrow> ('a \<Rightarrow> trace \<Rightarrow> trace \<times> (jsstring + 'b)) \<Rightarrow> trace \<times> (jsstring + 'b)" where
  "andThen m f = (case m of (tr, Inl e) \<Rightarrow> (tr, Inl e) | (tr, Inr x) \<Rightarrow> f x tr)"

definition gitFailure :: "jsstring list \<Rightarrow> exec_result \<Rightarrow> jsstring option" where
  "gitFailure args r =
     (case error r of
        None \<Rightarrow> None
      | Some message \<Rightarrow>
          let details = (if trim (stderr r) \<noteq> [] then trim (stderr r) else message)
          in Some (js ''git '' @ join (js '' '') args @ js '' failed: '' @ details))"

definition runGit ::
  "platform \<Rightarrow> jsstring list \<Rightarrow> jsstring \<Rightarrow> int \<Rightarrow> trace \<Rightarrow> trace \<times> (jsstring + jsstring)" where
  "runGit w args cwd timeoutMs tr =
     (let r = execFile w (js ''git'') ([js ''-c'', js ''core.quotepath=false''] @ args) cwd timeoutMs
                GIT_MAX_BUFFER_BYTES
      in (tr @ [args],
          case gitFailure args r of
            Some failure \<Rightarrow> Inl failure
          | None \<Rightarrow> Inr (trim (stdout r))))"

subsection \<open>readUntrackedFileContent\<close>

definition unavailable :: "jsstring \<Rightarrow> jsstring" where
  "unavailable reason = js ''[Untracked file unavailable: '' @ reason @ js '']''"

definition readUntrackedFileContent :: "platform \<Rightarrow> jsstring \<Rightarrow> jsstring" where
  "readUntrackedFileContent w filePath =
     (case stat w filePath of
        Inl reason \<Rightarrow> unavailable reason
      | Inr isFile \<Rightarrow>
          if \<not> isFile then js ''[Skipped non-regular file]''
          else (case readFile w filePath of
                  Inl reason \<Rightarrow> unavailable reason
                | Inr buffer \<Rightarrow>
                    if looksBinary buffer then js ''[Skipped binary file]''
                    else let text = utf8Decode buffer
                         in if trim text \<noteq> [] then trim text else js ''[Empty text file]''))"

subsection \<open>collectRepositoryChanges\<close>

definition statusArgs :: "jsstring list" where
  "statusArgs = [js ''status'', js ''--short'']"

definition stagedNamesArgs :: "jsstring list" where
  "stagedNamesArgs = [js ''diff'', js ''--name-only'', js ''--staged'']"

definition unstagedNamesArgs :: "jsstring list" where
  "unstagedNamesArgs = [js ''diff'', js ''--name-only'']"

definition untrackedNamesArgs :: "jsstring list" where
  "untrackedNamesArgs = [js ''ls-files'', js ''--others'', js ''--exclude-standard'']"

definition stagedDiffArgs :: "jsstring \<Rightarrow> jsstring list" where
  "stagedDiffArgs filePath =
     [js ''diff'', js ''--staged'', js ''--no-color'', js ''--no-ext-diff'', js ''--'', filePath]"

definition unstagedDiffArgs :: "jsstring \<Rightarrow> jsstring list" where
  "unstagedDiffArgs filePath = [js ''diff'', js ''--no-color'', js ''--no-ext-diff'', js ''--'', filePath]"

text \<open>
  The first part of the function: the status text and the three lists of names. The two
  later lists are empty, and their commands are not issued, under \<open>includeOnlyStaged\<close>.
\<close>

definition collectLists ::
  "platform \<Rightarrow> jsstring \<Rightarrow> ExtensionConfig \<Rightarrow>
   trace \<times> (jsstring + jsstring \<times> jsstring list \<times> jsstring list \<times> jsstring list)" where
  "collectLists w repositoryPath config =
     andThen (runGit w statusArgs repositoryPath (commandTimeoutMs config) []) (\<lambda>status t1.
     andThen (runGit w stagedNamesArgs repositoryPath (commandTimeoutMs config) t1) (\<lambda>stagedOut t2.
     andThen (if includeOnlyStaged config then (t2, Inr [])
              else andThen (runGit w unstagedNamesArgs repositoryPath (commandTimeoutMs config) t2)
                     (\<lambda>out t. (t, Inr (parseLines out)))) (\<lambda>unstagedFiles t3.
     andThen (if includeOnlyStaged config then (t3, Inr [])
              else andThen (runGit w untrackedNamesArgs repositoryPath (commandTimeoutMs config) t3)
                     (\<lambda>out t. (t, Inr (parseLines out)))) (\<lambda>untrackedFiles t4.
     (t4, Inr (status, parseLines stagedOut, unstagedFiles, untrackedFiles))))))"

text \<open>The body of the loop over \<open>limitedFiles\<close>: the sections of one path.\<close>

definition fileSections ::
  "platform \<Rightarrow> jsstring \<Rightarrow> ExtensionConfig \<Rightarrow> jsstring set \<Rightarrow> jsstring set \<Rightarrow> jsstring set \<Rightarrow>
   jsstring \<Rightarrow> trace \<Rightarrow> trace \<times> (jsstring + jsstring list)" where
  "fileSections w repositoryPath config stagedSet unstagedSet untrackedSet filePath tr =
     andThen (if filePath \<in> stagedSet
              then andThen (runGit w (stagedDiffArgs filePath) repositoryPath (commandTimeoutMs config) tr)
                     (\<lambda>stagedDiff t.
                        (t, Inr (if trim stagedDiff \<noteq> []
                                 then [js ''# Staged diff\<newline>'' @ stagedDiff] else [])))
              else (tr, Inr [])) (\<lambda>sections1 t1.
     andThen (if filePath \<in> unstagedSet
              then andThen (runGit w (unstagedDiffArgs filePath) repositoryPath (commandTimeoutMs config) t1)
                     (\<lambda>unstagedDiff t.
                        (t, Inr (if trim unstagedDiff \<noteq> []
                                 then sections1 @ [js ''# Unstaged diff\<newline>'' @ unstagedDiff]
                                 else sections1)))
              else (t1, Inr sections1)) (\<lambda>sections2 t2.
     (t2, Inr (if filePath \<in> untrackedSet
               then (let untrackedContent = readUntrackedFileContent w (pathJoin w repositoryPath filePath)
                     in if trim untrackedContent \<noteq> []
                        then sections2 @ [js ''# Untracked file content\<newline>'' @ untrackedContent]
                        else sections2)
               else sections2))))"

definition fileBlock :: "jsstring \<Rightarrow> jsstring list \<Rightarrow> jsstring" where
  "fileBlock filePath sections = js ''## '' @ filePath @ js ''\<newline>'' @ join (js ''\<newline>\<newline>'') sections"

fun fileLoop ::
  "platform \<Rightarrow> jsstring \<Rightarrow> ExtensionConfig \<Rightarrow> jsstring set \<Rightarrow> jsstring set \<Rightarrow> jsstring set \<Rightarrow>
   jsstring list \<Rightarrow> jsstring list \<Rightarrow> trace \<Rightarrow> trace \<times> (jsstring + jsstring list)" where
  "fileLoop w repositoryPath config stagedSet unstagedSet untrackedSet [] diffParts tr = (tr, Inr diffParts)"
| "fileLoop w repositoryPath config stagedSet unstagedSet untrackedSet (filePath # rest) diffParts tr =
     (case fileSections w repositoryPath config stagedSet unstagedSet untrackedSet filePath tr of
        (tr', Inl e) \<Rightarrow> (tr', Inl e)
      | (tr', Inr sections) \<Rightarrow>
          fileLoop w repositoryPath config stagedSet unstagedSet untrackedSet rest
            (if length sections > 0 then diffParts @ [fileBlock filePath sections] else diffParts) tr')"

definition allChangedFilesOf :: "jsstring list \<Rightarrow> jsstring list \<Rightarrow> jsstring list \<Rightarrow> jsstring list" where
  "allChangedFilesOf stagedFiles unstagedFiles untrackedFiles =
     uniqueLines (stagedFiles @ unstagedFiles @ untrackedFiles)"

definition limitedFilesOf :: "ExtensionConfig \<Rightarrow> jsstring list \<Rightarrow> jsstring list" where
  "limitedFilesOf config allChangedFiles = sliceTo allChangedFiles (maxChangedFiles config)"

text \<open>The loop run from the lists: the blocks of the rendered diff, in order.\<close>

definition collectDiffParts ::
  "platform \<Rightarrow> jsstring \<Rightarrow> ExtensionConfig \<Rightarrow> jsstring list \<Rightarrow> jsstring list \<Rightarrow> jsstring list \<Rightarrow>
   trace \<Rightarrow> trace \<times> (jsstring + jsstring list)" where
  "collectDiffParts w repositoryPath config stagedFiles unstagedFiles untrackedFiles tr =
     fileLoop w repositoryPath config (set stagedFiles) (set unstagedFiles) (set untrackedFiles)
       (limitedFilesOf config (allChangedFilesOf stagedFiles unstagedFiles untrackedFiles)) [] tr"

definition collectRepositoryChanges ::
  "platform \<Rightarrow> jsstring \<Rightarrow> ExtensionConfig \<Rightarrow> trace \<times> (jsstring + ChangeSnapshot)" where
  "collectRepositoryChanges w repositoryPath config =
     andThen (collectLists w repositoryPath config) (\<lambda>(status, stagedFiles, unstagedFiles, untrackedFiles) t4.
       let allChangedFiles = allChangedFilesOf stagedFiles unstagedFiles untrackedFiles;
           limitedFiles = limitedFilesOf config allChangedFiles;
           wasFileLimited = length allChangedFiles > length limitedFiles
       in andThen (collectDiffParts w repositoryPath config stagedFiles unstagedFiles untrackedFiles t4)
            (\<lambda>diffParts t5.
               let merged = join (js ''\<newline>\<newline>'') diffParts;
                   trimmed = (if truncateDiff config then trimUtf8 merged (maxDiffBytes config)
                              else (merged, False))
               in (t5, Inr \<lparr> status = status, diff = fst trimmed, wasTruncated = snd trimmed,
                              wasFileLimited = wasFileLimited,
                              totalChangedFiles = length allChangedFiles,
                              includedChangedFiles = length limitedFiles \<rparr>)))"

section \<open>prompt.ts\<close>














section \<open>Notions of the specification\<close>

text \<open>
  First-seen order, in the words of the specification: every distinct element once, at
  the place of its first occurrence. \<open>firstIndex xs x\<close> is the position of the first
  occurrence of \<open>x\<close> in \<open>xs\<close>.
\<close>

primrec firstSeenOrder :: "'a list \<Rightarrow> 'a list" where
  "firstSeenOrder [] = []"
| "firstSeenOrder (x # xs) = x # filter (\<lambda>y. y \<noteq> x) (firstSeenOrder xs)"

definition firstIndex :: "'a list \<Rightarrow> 'a \<Rightarrow> nat" where
  "firstIndex xs x = length (takeWhile (\<lambda>y. y \<noteq> x) xs)"

text \<open>A non-empty string that neither starts nor ends with white space.\<close>

definition cleanEntry :: "jsstring \<Rightarrow> bool" where
  "cleanEntry l \<longleftrightarrow> l \<noteq> [] \<and> \<not> isWhiteSpace (hd l) \<and> \<not> isWhiteSpace (last l)"

text \<open>
  The byte sequences that encode one code point: one byte below 0x80, or a lead byte
  and the continuation bytes the decoder admits after it.
\<close>

definition wellFormedSeq :: "nat list \<Rightarrow> bool" where
  "wellFormedSeq bs \<longleftrightarrow>
     (case bs of
        [b] \<Rightarrow> b < 0x80
      | [b, c] \<Rightarrow> 0xC2 \<le> b \<and> b \<le> 0xDF \<and> cont 0x80 0xBF c
      | [b, c, d] \<Rightarrow> 0xE0 \<le> b \<and> b \<le> 0xEF \<and> cont (lower2 b) (upper2 b) c \<and> cont 0x80 0xBF d
      | [b, c, d, e] \<Rightarrow> 0xF0 \<le> b \<and> b \<le> 0xF4 \<and> cont (lower2 b) (upper2 b) c \<and> cont 0x80 0xBF d \<and>
                        cont 0x80 0xBF e
      | _ \<Rightarrow> False)"

section \<open>Example platforms\<close>

text \<open>
  A small repository at \<open>/r\<close>: \<open>a\<close> is staged and also modified in the working tree,
  \<open>c\<close> is staged with an empty diff, \<open>b\<close> is an untracked file holding two NUL bytes.
\<close>

definition exampleExec :: "jsstring list \<Rightarrow> exec_result" where
  "exampleExec args =
     (if args = statusArgs then ExecResult None (js ''M  a'') []
      else if args = stagedNamesArgs then ExecResult None (js ''a\<newline>c\<newline>'') []
      else if args = unstagedNamesArgs then ExecResult None (js ''a'') []
      else if args = untrackedNamesArgs then ExecResult None (js ''b'') []
      else if args = stagedDiffArgs (js ''a'') then ExecResult None (js ''+x'') []
      else if args = unstagedDiffArgs (js ''a'') then ExecResult None (js ''-y'') []
      else ExecResult None [] [])"

definition examplePlatform :: platform where
  "examplePlatform =
     \<lparr> execFile = (\<lambda>file args cwd timeoutMs maxBuffer. exampleExec (drop 2 args)),
       stat = (\<lambda>p. if p = js ''/r/b'' then Inr True else Inl (js ''ENOENT'')),
       readFile = (\<lambda>p. Inr [0, 0]),
       pathJoin = (\<lambda>a b. a @ js ''/'' @ b) \<rparr>"

definition exampleConfig :: ExtensionConfig where
  "exampleConfig =
     \<lparr> language = En, commandTimeoutMs = 12000, includeOnlyStaged = False, maxChangedFiles = 10,
       maxDiffBytes = 4096, truncateDiff = True, systemPrompt = js ''You write commit messages.'',
       ruleTemplate = js ''One line.'', additionalRules = [] \<rparr>"

text \<open>The same repository when the working-tree diff of \<open>a\<close> exits non-zero.\<close>

definition failingPlatform :: platform where
  "failingPlatform =
     examplePlatform
       \<lparr> execFile := (\<lambda>file args cwd timeoutMs maxBuffer.
            if drop 2 args = unstagedDiffArgs (js ''a'')
            then ExecResult (Some (js ''Command failed'')) [] (js ''fatal: bad\<newline>'')
            else exampleExec (drop 2 args)) \<rparr>"

text \<open>What the collection returns there, with and without a limit of one file.\<close>

definition exampleSnapshot :: ChangeSnapshot where
  "exampleSnapshot =
     \<lparr> status = js ''M  a'',
       diff = js ''## a\<newline># Staged diff\<newline>+x\<newline>\<newline># Unstaged diff\<newline>-y\<newline>\<newline>## b\<newline># Untracked file content\<newline>[Skipped binary file]'',
       wasTruncated = False, wasFileLimited = False, totalChangedFiles = 3, includedChangedFiles = 3 \<rparr>"

definition limitedConfig :: ExtensionConfig where
  "limitedConfig = exampleConfig \<lparr> maxChangedFiles := 1 \<rparr>"

definition limitedSnapshot :: ChangeSnapshot where
  "limitedSnapshot =
     \<lparr> status = js ''M  a'',
       diff = js ''## a\<newline># Staged diff\<newline>+x\<newline>\<newline># Unstaged diff\<newline>-y'',
       wasTruncated = False, wasFileLimited = True, totalChangedFiles = 3, includedChangedFiles = 1 \<rparr>"

text \<open>A platform whose file system answers every path in the same given way.\<close>

definition fsPlatform :: "(jsstring + bool) \<Rightarrow> (jsstring + byte list) \<Rightarrow> platform" where
  "fsPlatform st rd = examplePlatform \<lparr> stat := (\<lambda>p. st), readFile := (\<lambda>p. rd) \<rparr>"

text \<open>
  The result \<open>execFile\<close> gives for the git command \<open>runGit\<close> issues with the arguments
  \<open>args\<close>, and whether that command succeeds.
\<close>

definition execOf :: "platform \<Rightarrow> jsstring \<Rightarrow> ExtensionConfig \<Rightarrow> jsstring list \<Rightarrow> exec_result" where
  "execOf w repo cfg args =
     execFile w (js ''git'') ([js ''-c'', js ''core.quotepath=false''] @ args) repo (commandTimeoutMs cfg)
       GIT_MAX_BUFFER_BYTES"

definition succeeds :: "platform \<Rightarrow> jsstring \<Rightarrow> ExtensionConfig \<Rightarrow> jsstring list \<Rightarrow> bool" where
  "succeeds w repo cfg args \<longleftrightarrow> error (execOf w repo cfg args) = None"

text \<open>
  The shape of every computation that starts with the trace \<open>tr0\<close>: it extends the trace;
  when it returns, every command it issued succeeded; when it is rejected, the last
  command it issued is the only one that failed, and the rejection is the error
  \<open>runGit\<close> builds for that command.
\<close>

definition okTrace ::
  "platform \<Rightarrow> jsstring \<Rightarrow> ExtensionConfig \<Rightarrow> trace \<Rightarrow> trace \<times> (jsstring + 'a) \<Rightarrow> bool" where
  "okTrace w repo cfg tr0 m \<longleftrightarrow>
     (\<exists>new. fst m = tr0 @ new \<and>
        (case snd m of
           Inr x \<Rightarrow> list_all (succeeds w repo cfg) new
         | Inl e \<Rightarrow> new \<noteq> [] \<and> list_all (succeeds w repo cfg) (butlast new) \<and>
                    gitFailure (last new) (execOf w repo cfg (last new)) = Some e))"

text \<open>A platform where the first command times out and leaves only white space on stderr.\<close>

definition silentPlatform :: platform where
  "silentPlatform =
     examplePlatform
       \<lparr> execFile := (\<lambda>file args cwd timeoutMs maxBuffer.
            ExecResult (Some (js ''spawnSync git ETIMEDOUT'')) [] (js '' \<newline>'')) \<rparr>"

text \<open>
  A repository whose only change is the staged file \<open>a\<close>, with a given staged diff; a
  diff of 5000 letters \<open>x\<close>; a diff of 4076 letters \<open>x\<close> followed by U+00E9, which puts the
  two bytes of U+00E9 on both sides of byte 4096 of the merged text; and the example
  configuration with truncation switched off.
\<close>

definition oneFileExec :: "jsstring \<Rightarrow> jsstring list \<Rightarrow> exec_result" where
  "oneFileExec text args =
     (if args = stagedNamesArgs then ExecResult None (js ''a'') []
      else if args = stagedDiffArgs (js ''a'') then ExecResult None text []
      else ExecResult None [] [])"

definition oneFilePlatform :: "jsstring \<Rightarrow> platform" where
  "oneFilePlatform text =
     examplePlatform \<lparr> execFile := (\<lambda>file args cwd timeoutMs maxBuffer. oneFileExec text (drop 2 args)) \<rparr>"

definition bigText :: jsstring where
  "bigText = replicate 5000 0x78"

definition splitText :: jsstring where
  "splitText = replicate 4076 0x78 @ [0xE9]"

definition noTruncConfig :: ExtensionConfig where
  "noTruncConfig = exampleConfig \<lparr> truncateDiff := False \<rparr>"

definition oneFileHeader :: jsstring where
  "oneFileHeader = js ''## a\<newline># Staged diff\<newline>''"

definition bigSnapshot :: ChangeSnapshot where
  "bigSnapshot =
     \<lparr> status = [], diff = oneFileHeader @ bigText,
       wasTruncated = False, wasFileLimited = False, totalChangedFiles = 1, includedChangedFiles = 1 \<rparr>"

definition truncatedSnapshot :: ChangeSnapshot where
  "truncatedSnapshot =
     \<lparr> status = [], diff = oneFileHeader @ replicate 4077 0x78 @ truncationMarker,
       wasTruncated = True, wasFileLimited = False, totalChangedFiles = 1, includedChangedFiles = 1 \<rparr>"

definition splitSnapshot :: ChangeSnapshot where
  "splitSnapshot =
     \<lparr> status = [], diff = oneFileHeader @ replicate 4076 0x78 @ [0xFFFD] @ truncationMarker,
       wasTruncated = True, wasFileLimited = False, totalChangedFiles = 1, includedChangedFiles = 1 \<rparr>"

section \<open>Properties\<close>

text \<open>
  C6. Whenever the UTF-8 byte length of the text is at most the budget, \<open>trimUtf8\<close>
  returns the text itself, with no marker, and \<open>truncated = false\<close>.
\<close>

theorem C6_trimUtf8_within_budget:
  "int (byteLength text) \<le> maxBytes \<Longrightarrow> trimUtf8 text maxBytes = (text, False)"
  by (simp add: trimUtf8_def)

theorem C6_trimUtf8_within_budget_witness:
  "int (byteLength (js ''ab'')) \<le> 2 \<and> trimUtf8 (js ''ab'') 2 = (js ''ab'', False)"
proof -
  have h: "int (byteLength (js ''ab'')) \<le> 2"
    by (simp add: byteLength_def utf8Encode_def js_def isHigh_def encodeCodePoint_def)
  show ?thesis
    using h C6_trimUtf8_within_budget [OF h] by simp
qed

subsection \<open>The text classifier\<close>

lemma countNonText_eq:
  "sampleSize \<le> length buffer \<Longrightarrow> i \<le> sampleSize \<Longrightarrow>
   countNonText buffer sampleSize i c = c + length (filter isControl (drop i (take sampleSize buffer)))"
proof (induction buffer sampleSize i c rule: countNonText.induct)
  case (1 buffer sampleSize i c)
  show ?case
  proof (cases "i < sampleSize")
    case True
    then have il: "i < length (take sampleSize buffer)" using "1.prems" by simp
    have d: "drop i (take sampleSize buffer) = (take sampleSize buffer ! i) # drop (Suc i) (take sampleSize buffer)"
      using il by (rule Cons_nth_drop_Suc [symmetric])
    have n: "take sampleSize buffer ! i = buffer ! i" using True by simp
    have ih: "countNonText buffer sampleSize (i + 1) (if isControl (buffer ! i) then c + 1 else c)
      = (if isControl (buffer ! i) then c + 1 else c) + length (filter isControl (drop (i + 1) (take sampleSize buffer)))"
      using "1.IH" [OF True] "1.prems" True by simp
    show ?thesis
      apply (subst countNonText.simps)
      using True ih d n by simp
  next
    case False
    then have "i = sampleSize" using "1.prems" by simp
    then show ?thesis
      by (subst countNonText.simps) simp
  qed
qed

lemma looksBinary_char:
  "looksBinary buf \<longleftrightarrow> buf \<noteq> [] \<and> (0 \<in> set buf \<or>
     real (length (filter isControl (take (min (length buf) 1024) buf))) / real (min (length buf) 1024) > 1 / 10)"
  by (simp add: looksBinary_def Let_def countNonText_eq del: countNonText.simps)

lemma printable_not_control: "\<forall>b\<in>set buf. 32 \<le> b \<Longrightarrow> filter isControl buf = []"
  by (induction buf) (auto simp: isControl_def)

text \<open>
  C5. \<open>looksBinary\<close> is a function of the buffer alone. The empty buffer is not binary; a
  buffer with a NUL byte is binary; any other buffer is binary exactly when, among its
  first \<open>min(length, 1024)\<close> bytes, the fraction of bytes below 32 other than 9, 10 and
  13 is strictly greater than one tenth; a buffer of printable ASCII is not binary.
\<close>

theorem C5_looksBinary:
  "looksBinary [] = False \<and>
   (0 \<in> set bufN \<longrightarrow> looksBinary bufN) \<and>
   (buf \<noteq> [] \<and> 0 \<notin> set buf \<longrightarrow>
      looksBinary buf =
        (real (length (filter isControl (take (min (length buf) 1024) buf)))
           / real (min (length buf) 1024) > 1 / 10)) \<and>
   ((\<forall>b\<in>set bufP. 32 \<le> b \<and> b \<le> 126) \<longrightarrow> \<not> looksBinary bufP)"
proof -
  have a: "looksBinary [] = False" by (simp add: looksBinary_char)
  have b: "0 \<in> set bufN \<longrightarrow> looksBinary bufN" by (auto simp: looksBinary_char)
  have c: "buf \<noteq> [] \<and> 0 \<notin> set buf \<longrightarrow>
      looksBinary buf =
        (real (length (filter isControl (take (min (length buf) 1024) buf)))
           / real (min (length buf) 1024) > 1 / 10)"
    by (simp add: looksBinary_char)
  have d: "(\<forall>b\<in>set bufP. 32 \<le> b \<and> b \<le> 126) \<longrightarrow> \<not> looksBinary bufP"
  proof
    assume h: "\<forall>b\<in>set bufP. 32 \<le> b \<and> b \<le> 126"
    have z: "0 \<notin> set bufP" using h by auto
    have "\<forall>b\<in>set (take (min (length bufP) 1024) bufP). 32 \<le> b"
      using h by (meson in_set_takeD)
    then have "filter isControl (take (min (length bufP) 1024) bufP) = []"
      by (rule printable_not_control)
    then show "\<not> looksBinary bufP" using z by (simp add: looksBinary_char)
  qed
  show ?thesis using a b c d by blast
qed

theorem C5_looksBinary_witness:
  "looksBinary [0, 0] \<and> looksBinary [1, 65] \<and> \<not> looksBinary [65, 66] \<and> \<not> looksBinary [1, 65, 65, 65, 65, 65, 65, 65, 65, 65]"
  using C5_looksBinary [of "[0, 0]" "[1, 65]" "[65, 66]"] C5_looksBinary [of "[0, 0]" "[1, 65, 65, 65, 65, 65, 65, 65, 65, 65]" "[65, 66]"]
  by (simp add: isControl_def)

subsection \<open>Merging the lists\<close>

lemma set_firstSeenOrder: "set (firstSeenOrder xs) = set xs"
  by (induction xs) auto

lemma distinct_firstSeenOrder: "distinct (firstSeenOrder xs)"
  by (induction xs) auto

lemma sorted_firstSeenOrder: "sorted_wrt (\<lambda>a b. firstIndex xs a < firstIndex xs b) (firstSeenOrder xs)"
proof (induction xs)
  case Nil
  then show ?case by simp
next
  case (Cons x xs)
  have "sorted_wrt (\<lambda>a b. firstIndex xs a < firstIndex xs b) (filter (\<lambda>y. y \<noteq> x) (firstSeenOrder xs))"
    using Cons.IH by (rule sorted_wrt_filter)
  then have "sorted_wrt (\<lambda>a b. firstIndex (x # xs) a < firstIndex (x # xs) b) (filter (\<lambda>y. y \<noteq> x) (firstSeenOrder xs))"
    by (rule sorted_wrt_mono_rel [rotated]) (auto simp: firstIndex_def)
  then show ?case by (auto simp: firstIndex_def)
qed

lemma uniqueLinesLoop_eq:
  "uniqueLinesLoop ls (set out) out = out @ filter (\<lambda>x. x \<notin> set out) (firstSeenOrder ls)"
proof (induction ls arbitrary: out)
  case Nil
  then show ?case by simp
next
  case (Cons x xs)
  show ?case
  proof (cases "x \<in> set out")
    case True
    have "filter (\<lambda>y. y \<notin> set out) (filter (\<lambda>y. y \<noteq> x) (firstSeenOrder xs))
        = filter (\<lambda>y. y \<notin> set out) (firstSeenOrder xs)"
      using True by (auto intro: filter_cong)
    then show ?thesis using True Cons.IH [of out] by simp
  next
    case False
    have "uniqueLinesLoop xs (set (out @ [x])) (out @ [x])
        = (out @ [x]) @ filter (\<lambda>y. y \<notin> set (out @ [x])) (firstSeenOrder xs)"
      by (rule Cons.IH)
    moreover have "filter (\<lambda>y. y \<notin> set (out @ [x])) (firstSeenOrder xs)
        = filter (\<lambda>y. y \<notin> set out) (filter (\<lambda>y. y \<noteq> x) (firstSeenOrder xs))"
      by (auto intro: filter_cong)
    ultimately show ?thesis using False by simp
  qed
qed

lemma uniqueLines_firstSeenOrder: "uniqueLines ls = firstSeenOrder ls"
  using uniqueLinesLoop_eq [of ls "[]"] by (simp add: uniqueLines_def)

subsection \<open>Trimming and line parsing\<close>

lemma last_dropWhile: "dropWhile P xs \<noteq> [] \<Longrightarrow> last (dropWhile P xs) = last xs"
  by (induction xs) (auto split: if_splits)

lemma trim_clean: "trim s \<noteq> [] \<Longrightarrow> cleanEntry (trim s)"
proof -
  assume ne: "trim s \<noteq> []"
  let ?t = "dropWhile isWhiteSpace s"
  let ?u = "dropWhile isWhiteSpace (rev ?t)"
  have u: "?u \<noteq> []" using ne by (simp add: trim_def)
  then have t: "?t \<noteq> []" by (cases "?t") auto
  have "last (trim s) = hd ?u" using u by (simp add: trim_def last_rev)
  moreover have "\<not> isWhiteSpace (hd ?u)" using u by (rule hd_dropWhile)
  moreover have "hd (trim s) = last ?u" using u by (simp add: trim_def hd_rev)
  moreover have "last ?u = last (rev ?t)" using u by (rule last_dropWhile)
  moreover have "last (rev ?t) = hd ?t" using t by (simp add: last_rev)
  moreover have "\<not> isWhiteSpace (hd ?t)" using t by (rule hd_dropWhile)
  ultimately show ?thesis using ne by (simp add: cleanEntry_def)
qed

lemma clean_trim: "cleanEntry l \<Longrightarrow> trim l = l"
proof -
  assume c: "cleanEntry l"
  then have 1: "dropWhile isWhiteSpace l = l" by (cases l) (auto simp: cleanEntry_def)
  have "rev l \<noteq> []" "\<not> isWhiteSpace (hd (rev l))" using c by (auto simp: cleanEntry_def hd_rev)
  then have "dropWhile isWhiteSpace (rev l) = rev l" by (cases "rev l") auto
  then show ?thesis using 1 by (simp add: trim_def)
qed



lemma length_sliceTo: "length (sliceTo xs n) \<le> length xs"
  by (auto simp: sliceTo_def)

lemma sliceTo_nonneg: "0 \<le> n \<Longrightarrow> sliceTo xs n = take (nat n) xs"
  by (simp add: sliceTo_def)

lemma prefix_sliceTo: "prefix (sliceTo xs n) xs"
  by (simp add: sliceTo_def take_is_prefix)

subsection \<open>The structure of a collection\<close>

lemma andThen_Inl [simp]: "andThen (tr, Inl e) f = (tr, Inl e)"
  by (simp add: andThen_def)

lemma andThen_Inr [simp]: "andThen (tr, Inr x) f = f x tr"
  by (simp add: andThen_def)

lemma andThen_success:
  "andThen m f = (tr, Inr y) \<Longrightarrow> \<exists>t x. m = (t, Inr x) \<and> f x t = (tr, Inr y)"
  by (cases m) (auto simp: andThen_def split: sum.splits)

lemma collect_success:
  assumes "collectRepositoryChanges w repo cfg = (tr, Inr snap)"
  shows "\<exists>t4 st sf uf utf parts.
           collectLists w repo cfg = (t4, Inr (st, sf, uf, utf)) \<and>
           collectDiffParts w repo cfg sf uf utf t4 = (tr, Inr parts) \<and>
           status snap = st \<and>
           diff snap = (if truncateDiff cfg
                        then fst (trimUtf8 (join (js ''\<newline>\<newline>'') parts) (maxDiffBytes cfg))
                        else join (js ''\<newline>\<newline>'') parts) \<and>
           wasTruncated snap = (truncateDiff cfg \<and>
                        snd (trimUtf8 (join (js ''\<newline>\<newline>'') parts) (maxDiffBytes cfg))) \<and>
           wasFileLimited snap = (length (allChangedFilesOf sf uf utf)
                                    > length (limitedFilesOf cfg (allChangedFilesOf sf uf utf))) \<and>
           totalChangedFiles snap = length (allChangedFilesOf sf uf utf) \<and>
           includedChangedFiles snap = length (limitedFilesOf cfg (allChangedFilesOf sf uf utf))"
proof -
  obtain t4 r where l: "collectLists w repo cfg = (t4, r)" by force
  show ?thesis
  proof (cases r)
    case (Inl e)
    with assms l show ?thesis by (simp add: collectRepositoryChanges_def)
  next
    case (Inr x)
    obtain st sf uf utf where x: "x = (st, sf, uf, utf)" by (cases x) auto
    obtain t5 r2 where p: "collectDiffParts w repo cfg sf uf utf t4 = (t5, r2)" by force
    show ?thesis
    proof (cases r2)
      case (Inl e)
      with assms l Inr x p show ?thesis by (simp add: collectRepositoryChanges_def Let_def)
    next
      case r2: (Inr parts)
      from assms l Inr x p r2 have "t5 = tr" and
        "snap = \<lparr> ChangeSnapshot.status = st,
                   diff = fst (if truncateDiff cfg then trimUtf8 (join (js ''\<newline>\<newline>'') parts) (maxDiffBytes cfg)
                              else (join (js ''\<newline>\<newline>'') parts, False)),
                   wasTruncated = snd (if truncateDiff cfg then trimUtf8 (join (js ''\<newline>\<newline>'') parts) (maxDiffBytes cfg)
                              else (join (js ''\<newline>\<newline>'') parts, False)),
                   wasFileLimited = length (allChangedFilesOf sf uf utf)
                                    > length (limitedFilesOf cfg (allChangedFilesOf sf uf utf)),
                   totalChangedFiles = length (allChangedFilesOf sf uf utf),
                   includedChangedFiles = length (limitedFilesOf cfg (allChangedFilesOf sf uf utf)) \<rparr>"
        by (simp_all add: collectRepositoryChanges_def Let_def)
      with l Inr x p r2 show ?thesis by auto
    qed
  qed
qed

lemma fileLoop_parts:
  "fileLoop w repo cfg S U T files parts tr = (tr', Inr parts') \<Longrightarrow>
   \<exists>new. parts' = parts @ new \<and> length new \<le> length files \<and>
         (\<forall>part\<in>set new. \<exists>p\<in>set files. \<exists>secs. part = fileBlock p secs)"
proof (induction files arbitrary: parts tr)
  case Nil
  then show ?case by simp
next
  case (Cons f files)
  obtain t r where fs: "fileSections w repo cfg S U T f tr = (t, r)" by force
  show ?case
  proof (cases r)
    case (Inl e)
    with Cons.prems fs show ?thesis by simp
  next
    case (Inr secs)
    let ?parts = "if length secs > 0 then parts @ [fileBlock f secs] else parts"
    from Cons.prems fs Inr have "fileLoop w repo cfg S U T files ?parts t = (tr', Inr parts')"
      by simp
    from Cons.IH [OF this] obtain new where
      n: "parts' = ?parts @ new" "length new \<le> length files"
         "\<forall>part\<in>set new. \<exists>p\<in>set files. \<exists>secs. part = fileBlock p secs" by blast
    show ?thesis
    proof (cases "length secs > 0")
      case True
      with n have "parts' = parts @ (fileBlock f secs # new)" by simp
      moreover have "length (fileBlock f secs # new) \<le> length (f # files)" using n by simp
      moreover have "\<forall>part\<in>set (fileBlock f secs # new). \<exists>p\<in>set (f # files). \<exists>secs. part = fileBlock p secs"
        using n by auto
      ultimately show ?thesis by blast
    next
      case False
      with n have "parts' = parts @ new" by simp
      moreover have "length new \<le> length (f # files)" using n by simp
      moreover have "\<forall>part\<in>set new. \<exists>p\<in>set (f # files). \<exists>secs. part = fileBlock p secs"
        using n by auto
      ultimately show ?thesis by blast
    qed
  qed
qed

lemma collectDiffParts_blocks:
  assumes "collectDiffParts w repo cfg sf uf utf t = (tr, Inr parts)"
  shows "length parts \<le> length (limitedFilesOf cfg (allChangedFilesOf sf uf utf)) \<and>
         (\<forall>part\<in>set parts. \<exists>p\<in>set (limitedFilesOf cfg (allChangedFilesOf sf uf utf)). \<exists>secs.
             part = fileBlock p secs)"
  using fileLoop_parts [OF assms [unfolded collectDiffParts_def]] by auto

lemma parseLines_Nil: "parseLines [] = []"
  by (simp add: parseLines_def trim_def)



subsection \<open>The example repository, evaluated\<close>

lemmas argdefs = statusArgs_def stagedNamesArgs_def unstagedNamesArgs_def untrackedNamesArgs_def
  stagedDiffArgs_def unstagedDiffArgs_def

lemma js_Nil: "js [] = []" by (simp add: js_def)
lemma js_Cons: "js (c # s) = of_nat (of_char c) # js s" by (simp add: js_def)

lemmas evaldefs = collectLists_def collectDiffParts_def runGit_def
  gitFailure_def examplePlatform_def exampleExec_def exampleConfig_def argdefs js_Cons js_Nil
  parseLines_def trim_def isWhiteSpace_def allChangedFilesOf_def limitedFilesOf_def uniqueLines_def
  sliceTo_def fileSections_def fileBlock_def readUntrackedFileContent_def looksBinary_def Let_def
  trimUtf8_def byteLength_def utf8Encode_def encodeCodePoint_def isHigh_def isLow_def

lemma example_lists:
  "collectLists examplePlatform (js ''/r'') exampleConfig =
     ([statusArgs, stagedNamesArgs, unstagedNamesArgs, untrackedNamesArgs],
      Inr (js ''M  a'', [js ''a'', js ''c''], [js ''a''], [js ''b'']))"
  by (simp add: evaldefs)

lemma example_merged:
  "allChangedFilesOf [js ''a'', js ''c''] [js ''a''] [js ''b''] = [js ''a'', js ''c'', js ''b'']"
  by (simp add: allChangedFilesOf_def uniqueLines_def js_Cons js_Nil)

lemma example_parts:
  "collectDiffParts examplePlatform (js ''/r'') exampleConfig [js ''a'', js ''c''] [js ''a''] [js ''b'']
     [statusArgs, stagedNamesArgs, unstagedNamesArgs, untrackedNamesArgs] =
     ([statusArgs, stagedNamesArgs, unstagedNamesArgs, untrackedNamesArgs, stagedDiffArgs (js ''a''),
       unstagedDiffArgs (js ''a''), stagedDiffArgs (js ''c'')],
      Inr [js ''## a\<newline># Staged diff\<newline>+x\<newline>\<newline># Unstaged diff\<newline>-y'',
           js ''## b\<newline># Untracked file content\<newline>[Skipped binary file]''])"
  by (simp add: evaldefs)

lemma example_snapshot:
  "collectRepositoryChanges examplePlatform (js ''/r'') exampleConfig =
  ([statusArgs, stagedNamesArgs, unstagedNamesArgs, untrackedNamesArgs, stagedDiffArgs (js ''a''),
    unstagedDiffArgs (js ''a''), stagedDiffArgs (js ''c'')], Inr exampleSnapshot)"
  unfolding collectRepositoryChanges_def example_lists
  apply (simp only: andThen_Inr prod.case example_parts example_merged Let_def)
  apply (simp add: exampleSnapshot_def limitedFilesOf_def sliceTo_def exampleConfig_def js_Cons js_Nil trimUtf8_def byteLength_def utf8Encode_def encodeCodePoint_def isHigh_def isLow_def)
  done


subsection \<open>The merged list and the file limit\<close>

text \<open>
  C3. The merged list holds every distinct path of the three lists exactly once, in the
  order of first occurrence in staged, then unstaged, then untracked; paths are compared
  as strings; \<open>totalChangedFiles\<close> of a returned snapshot is the length of that list.
\<close>

theorem C3_merged_list:
  "allChangedFilesOf sf uf utf = firstSeenOrder (sf @ uf @ utf) \<and>
   distinct (allChangedFilesOf sf uf utf) \<and>
   set (allChangedFilesOf sf uf utf) = set sf \<union> set uf \<union> set utf \<and>
   sorted_wrt (\<lambda>a b. firstIndex (sf @ uf @ utf) a < firstIndex (sf @ uf @ utf) b)
     (allChangedFilesOf sf uf utf) \<and>
   (collectRepositoryChanges w repo cfg = (tr, Inr snap) \<longrightarrow>
      (\<exists>t4 st sf' uf' utf'.
          collectLists w repo cfg = (t4, Inr (st, sf', uf', utf')) \<and>
          totalChangedFiles snap = length (allChangedFilesOf sf' uf' utf')))"
proof -
  have e: "allChangedFilesOf sf uf utf = firstSeenOrder (sf @ uf @ utf)"
    by (simp add: allChangedFilesOf_def uniqueLines_firstSeenOrder)
  have d: "distinct (allChangedFilesOf sf uf utf)"
    unfolding e by (rule distinct_firstSeenOrder)
  have s: "set (allChangedFilesOf sf uf utf) = set sf \<union> set uf \<union> set utf"
    unfolding e by (simp add: set_firstSeenOrder Un_assoc)
  have o: "sorted_wrt (\<lambda>a b. firstIndex (sf @ uf @ utf) a < firstIndex (sf @ uf @ utf) b)
     (allChangedFilesOf sf uf utf)"
    unfolding e by (rule sorted_firstSeenOrder)
  have c: "collectRepositoryChanges w repo cfg = (tr, Inr snap) \<longrightarrow>
      (\<exists>t4 st sf' uf' utf'.
          collectLists w repo cfg = (t4, Inr (st, sf', uf', utf')) \<and>
          totalChangedFiles snap = length (allChangedFilesOf sf' uf' utf'))"
    using collect_success by blast
  from e d s o c show ?thesis by blast
qed

theorem C3_merged_list_witness:
  "allChangedFilesOf [js ''a'', js ''c''] [js ''a''] [js ''b''] = [js ''a'', js ''c'', js ''b''] \<and>
   firstSeenOrder ([js ''a'', js ''c''] @ [js ''a''] @ [js ''b'']) = [js ''a'', js ''c'', js ''b''] \<and>
   totalChangedFiles exampleSnapshot = 3"
  using C3_merged_list [of "[js ''a'', js ''c'']" "[js ''a'']" "[js ''b'']" examplePlatform "js ''/r''" exampleConfig]
    example_snapshot example_lists example_merged
  by (simp add: exampleSnapshot_def)


text \<open>
  C4. For every returned snapshot: \<open>includedChangedFiles \<le> totalChangedFiles\<close>;
  \<open>wasFileLimited\<close> holds exactly when \<open>includedChangedFiles < totalChangedFiles\<close>; the
  working set is a prefix of the merged list, namely its first \<open>maxChangedFiles\<close> entries
  at most (for the non-negative limits the configuration supplies); and
  \<open>includedChangedFiles\<close> is the length of the working set, whatever number of blocks
  the loop rendered for it.
\<close>

theorem C4_file_limit:
  assumes "collectRepositoryChanges w repo cfg = (tr, Inr snap)"
  shows "includedChangedFiles snap \<le> totalChangedFiles snap \<and>
         (wasFileLimited snap \<longleftrightarrow> includedChangedFiles snap < totalChangedFiles snap) \<and>
         (\<exists>t4 st sf uf utf parts.
            collectLists w repo cfg = (t4, Inr (st, sf, uf, utf)) \<and>
            collectDiffParts w repo cfg sf uf utf t4 = (tr, Inr parts) \<and>
            prefix (limitedFilesOf cfg (allChangedFilesOf sf uf utf)) (allChangedFilesOf sf uf utf) \<and>
            (0 \<le> maxChangedFiles cfg \<longrightarrow>
               limitedFilesOf cfg (allChangedFilesOf sf uf utf)
                 = take (nat (maxChangedFiles cfg)) (allChangedFilesOf sf uf utf) \<and>
               length (limitedFilesOf cfg (allChangedFilesOf sf uf utf)) \<le> nat (maxChangedFiles cfg)) \<and>
            totalChangedFiles snap = length (allChangedFilesOf sf uf utf) \<and>
            includedChangedFiles snap = length (limitedFilesOf cfg (allChangedFilesOf sf uf utf)) \<and>
            length parts \<le> includedChangedFiles snap)"
proof -
  from collect_success [OF assms] obtain t4 st sf uf utf parts where
    l: "collectLists w repo cfg = (t4, Inr (st, sf, uf, utf))" and
    p: "collectDiffParts w repo cfg sf uf utf t4 = (tr, Inr parts)" and
    f: "wasFileLimited snap = (length (allChangedFilesOf sf uf utf)
                                    > length (limitedFilesOf cfg (allChangedFilesOf sf uf utf)))" and
    t: "totalChangedFiles snap = length (allChangedFilesOf sf uf utf)" and
    i: "includedChangedFiles snap = length (limitedFilesOf cfg (allChangedFilesOf sf uf utf))"
    by blast
  have le: "includedChangedFiles snap \<le> totalChangedFiles snap"
    unfolding t i limitedFilesOf_def by (rule length_sliceTo)
  have iff: "wasFileLimited snap \<longleftrightarrow> includedChangedFiles snap < totalChangedFiles snap"
    unfolding f t i by simp
  have pre: "prefix (limitedFilesOf cfg (allChangedFilesOf sf uf utf)) (allChangedFilesOf sf uf utf)"
    unfolding limitedFilesOf_def by (rule prefix_sliceTo)
  have tk: "0 \<le> maxChangedFiles cfg \<longrightarrow>
               limitedFilesOf cfg (allChangedFilesOf sf uf utf)
                 = take (nat (maxChangedFiles cfg)) (allChangedFilesOf sf uf utf) \<and>
               length (limitedFilesOf cfg (allChangedFilesOf sf uf utf)) \<le> nat (maxChangedFiles cfg)"
    by (simp add: limitedFilesOf_def sliceTo_nonneg)
  have np: "length parts \<le> includedChangedFiles snap"
    unfolding i using collectDiffParts_blocks [OF p] by simp
  from le iff l p pre tk t i np show ?thesis by blast
qed


lemma limited_lists:
  "collectLists examplePlatform (js ''/r'') limitedConfig =
     ([statusArgs, stagedNamesArgs, unstagedNamesArgs, untrackedNamesArgs],
      Inr (js ''M  a'', [js ''a'', js ''c''], [js ''a''], [js ''b'']))"
  by (simp add: evaldefs limitedConfig_def)

lemma limited_parts:
  "collectDiffParts examplePlatform (js ''/r'') limitedConfig [js ''a'', js ''c''] [js ''a''] [js ''b'']
     [statusArgs, stagedNamesArgs, unstagedNamesArgs, untrackedNamesArgs] =
     ([statusArgs, stagedNamesArgs, unstagedNamesArgs, untrackedNamesArgs, stagedDiffArgs (js ''a''),
       unstagedDiffArgs (js ''a'')],
      Inr [js ''## a\<newline># Staged diff\<newline>+x\<newline>\<newline># Unstaged diff\<newline>-y''])"
  by (simp add: evaldefs limitedConfig_def)

lemma limited_snapshot:
  "collectRepositoryChanges examplePlatform (js ''/r'') limitedConfig =
  ([statusArgs, stagedNamesArgs, unstagedNamesArgs, untrackedNamesArgs, stagedDiffArgs (js ''a''),
    unstagedDiffArgs (js ''a'')], Inr limitedSnapshot)"
  unfolding collectRepositoryChanges_def limited_lists
  apply (simp only: andThen_Inr prod.case limited_parts example_merged Let_def)
  apply (simp add: limitedSnapshot_def limitedConfig_def limitedFilesOf_def sliceTo_def exampleConfig_def js_Cons js_Nil trimUtf8_def byteLength_def utf8Encode_def encodeCodePoint_def isHigh_def isLow_def)
  done

theorem C4_file_limit_witness:
  "0 \<le> maxChangedFiles limitedConfig \<and>
   includedChangedFiles limitedSnapshot \<le> totalChangedFiles limitedSnapshot \<and>
   (wasFileLimited limitedSnapshot \<longleftrightarrow> includedChangedFiles limitedSnapshot < totalChangedFiles limitedSnapshot) \<and>
   includedChangedFiles limitedSnapshot = 1 \<and> totalChangedFiles limitedSnapshot = 3 \<and>
   limitedFilesOf limitedConfig (allChangedFilesOf [js ''a'', js ''c''] [js ''a''] [js ''b'']) = [js ''a''] \<and>
   includedChangedFiles exampleSnapshot = 3 \<and> \<not> wasFileLimited exampleSnapshot \<and>
   limitedFilesOf exampleConfig (allChangedFilesOf [js ''a'', js ''c''] [js ''a''] [js ''b''])
     = [js ''a'', js ''c'', js ''b''] \<and>
   (\<exists>tr parts.
      collectDiffParts examplePlatform (js ''/r'') exampleConfig [js ''a'', js ''c''] [js ''a''] [js ''b'']
        [statusArgs, stagedNamesArgs, unstagedNamesArgs, untrackedNamesArgs] = (tr, Inr parts) \<and>
      length parts = 2)"
proof -
  have c: "0 \<le> maxChangedFiles limitedConfig" "0 \<le> maxChangedFiles exampleConfig"
    by (simp_all add: limitedConfig_def exampleConfig_def)
  have n: "nat (maxChangedFiles limitedConfig) = 1" "nat (maxChangedFiles exampleConfig) = 10"
    by (simp_all add: limitedConfig_def exampleConfig_def)
  have p: "\<exists>tr parts.
      collectDiffParts examplePlatform (js ''/r'') exampleConfig [js ''a'', js ''c''] [js ''a''] [js ''b'']
        [statusArgs, stagedNamesArgs, unstagedNamesArgs, untrackedNamesArgs] = (tr, Inr parts) \<and>
      length parts = 2"
    unfolding example_parts by simp
  from C4_file_limit [OF limited_snapshot] C4_file_limit [OF example_snapshot] c n limited_lists
    example_lists example_merged p
  show ?thesis by (auto simp: limitedSnapshot_def exampleSnapshot_def)
qed




subsection \<open>The prompt builder\<close>











subsection \<open>Untracked files\<close>

lemma trim_nonblank: "s \<noteq> [] \<Longrightarrow> \<not> isWhiteSpace (hd s) \<Longrightarrow> trim s \<noteq> []"
  by (cases s) (auto simp: trim_def)

lemma trim_trim_nonblank: "trim s \<noteq> [] \<Longrightarrow> trim (trim s) \<noteq> []"
  using trim_clean [of s] clean_trim [of "trim s"] by auto

lemma unavailable_nonblank: "trim (unavailable reason) \<noteq> []"
  by (rule trim_nonblank) (simp_all add: unavailable_def js_Cons isWhiteSpace_def)

lemma readUntracked_nonblank: "trim (readUntrackedFileContent w p) \<noteq> []"
proof -
  have a: "trim (js ''[Skipped non-regular file]'') \<noteq> []"
    by (rule trim_nonblank) (simp_all add: js_Cons isWhiteSpace_def)
  have b: "trim (js ''[Skipped binary file]'') \<noteq> []"
    by (rule trim_nonblank) (simp_all add: js_Cons isWhiteSpace_def)
  have c: "trim (js ''[Empty text file]'') \<noteq> []"
    by (rule trim_nonblank) (simp_all add: js_Cons isWhiteSpace_def)
  show ?thesis
    unfolding readUntrackedFileContent_def
    using a b c unavailable_nonblank trim_trim_nonblank
    by (auto simp: Let_def split: sum.splits)
qed

lemma untracked_section:
  assumes "p \<in> T" and "fileSections w repo cfg S U T p tr = (tr', Inr secs)"
  shows "secs \<noteq> [] \<and>
         last secs = js ''# Untracked file content\<newline>'' @ readUntrackedFileContent w (pathJoin w repo p)"
proof -
  from andThen_success [OF assms(2) [unfolded fileSections_def]] obtain t1 s1 where
    a: "andThen (if p \<in> U
              then andThen (runGit w (unstagedDiffArgs p) repo (commandTimeoutMs cfg) t1)
                     (\<lambda>unstagedDiff t.
                        (t, Inr (if trim unstagedDiff \<noteq> []
                                 then s1 @ [js ''# Unstaged diff\<newline>'' @ unstagedDiff]
                                 else s1)))
              else (t1, Inr s1)) (\<lambda>sections2 t2.
     (t2, Inr (if p \<in> T
               then (let untrackedContent = readUntrackedFileContent w (pathJoin w repo p)
                     in if trim untrackedContent \<noteq> []
                        then sections2 @ [js ''# Untracked file content\<newline>'' @ untrackedContent]
                        else sections2)
               else sections2))) = (tr', Inr secs)"
    by blast
  from andThen_success [OF a] obtain t2 s2 where
    b: "(t2, Inr (if p \<in> T
               then (let untrackedContent = readUntrackedFileContent w (pathJoin w repo p)
                     in if trim untrackedContent \<noteq> []
                        then s2 @ [js ''# Untracked file content\<newline>'' @ untrackedContent]
                        else s2)
               else s2)) = (tr', Inr secs)"
    by blast
  from b assms(1) readUntracked_nonblank [of w "pathJoin w repo p"]
  have "secs = s2 @ [js ''# Untracked file content\<newline>'' @ readUntrackedFileContent w (pathJoin w repo p)]"
    by (simp add: Let_def)
  then show ?thesis by simp
qed

lemma untracked_only:
  assumes "p \<in> T" "p \<notin> S" "p \<notin> U"
  shows "fileSections w repo cfg S U T p tr =
           (tr, Inr [js ''# Untracked file content\<newline>'' @ readUntrackedFileContent w (pathJoin w repo p)])"
  using assms readUntracked_nonblank [of w "pathJoin w repo p"]
  by (simp add: fileSections_def Let_def)

text \<open>
  C8. Reading an untracked path always gives a text that is not blank, and cannot fail:
  a path whose \<open>stat\<close> says it is not a regular file gives \<open>[Skipped non-regular file]\<close>;
  a regular file whose bytes are classified binary (two NUL bytes, for one) gives
  \<open>[Skipped binary file]\<close>; a regular file that is not binary and whose decoded text
  trims to nothing gives \<open>[Empty text file]\<close>; when \<open>stat\<close> or \<open>readFile\<close> throws,
  the text is \<open>[Untracked file unavailable: reason]\<close> with the message of the error. In the
  loop, an untracked path always gets its section, and a path that is only untracked
  issues no command and cannot end the collection.
\<close>

theorem C8_readUntrackedFileContent:
  "trim (readUntrackedFileContent w p) \<noteq> [] \<and>
   (stat wA pA = Inr False \<longrightarrow> readUntrackedFileContent wA pA = js ''[Skipped non-regular file]'') \<and>
   (stat wB pB = Inr True \<and> readFile wB pB = Inr bufB \<and> looksBinary bufB \<longrightarrow>
      readUntrackedFileContent wB pB = js ''[Skipped binary file]'') \<and>
   (stat wC pC = Inr True \<and> readFile wC pC = Inr [0, 0] \<longrightarrow>
      readUntrackedFileContent wC pC = js ''[Skipped binary file]'') \<and>
   (stat wD pD = Inr True \<and> readFile wD pD = Inr bufD \<and> \<not> looksBinary bufD \<and> trim (utf8Decode bufD) = [] \<longrightarrow>
      readUntrackedFileContent wD pD = js ''[Empty text file]'') \<and>
   (stat wE pE = Inl reasonE \<longrightarrow>
      readUntrackedFileContent wE pE = js ''[Untracked file unavailable: '' @ reasonE @ js '']'') \<and>
   (stat wF pF = Inr True \<and> readFile wF pF = Inl reasonF \<longrightarrow>
      readUntrackedFileContent wF pF = js ''[Untracked file unavailable: '' @ reasonF @ js '']'') \<and>
   (pG \<in> TG \<and> fileSections wG repoG cfgG SG UG TG pG trG = (trG', Inr secsG) \<longrightarrow>
      secsG \<noteq> [] \<and>
      last secsG = js ''# Untracked file content\<newline>'' @ readUntrackedFileContent wG (pathJoin wG repoG pG)) \<and>
   (pH \<in> TH \<and> pH \<notin> SH \<and> pH \<notin> UH \<longrightarrow>
      fileSections wH repoH cfgH SH UH TH pH trH =
        (trH, Inr [js ''# Untracked file content\<newline>'' @ readUntrackedFileContent wH (pathJoin wH repoH pH)]))"
proof -
  have b: "looksBinary [0, 0]" by (simp add: looksBinary_def)
  have 1: "stat wA pA = Inr False \<longrightarrow> readUntrackedFileContent wA pA = js ''[Skipped non-regular file]''"
    by (simp add: readUntrackedFileContent_def)
  have 2: "stat wB pB = Inr True \<and> readFile wB pB = Inr bufB \<and> looksBinary bufB \<longrightarrow>
      readUntrackedFileContent wB pB = js ''[Skipped binary file]''"
    by (simp add: readUntrackedFileContent_def)
  have 3: "stat wC pC = Inr True \<and> readFile wC pC = Inr [0, 0] \<longrightarrow>
      readUntrackedFileContent wC pC = js ''[Skipped binary file]''"
    using b by (simp add: readUntrackedFileContent_def)
  have 4: "stat wD pD = Inr True \<and> readFile wD pD = Inr bufD \<and> \<not> looksBinary bufD \<and> trim (utf8Decode bufD) = [] \<longrightarrow>
      readUntrackedFileContent wD pD = js ''[Empty text file]''"
    by (simp add: readUntrackedFileContent_def)
  have 5: "stat wE pE = Inl reasonE \<longrightarrow>
      readUntrackedFileContent wE pE = js ''[Untracked file unavailable: '' @ reasonE @ js '']''"
    by (simp add: readUntrackedFileContent_def unavailable_def)
  have 6: "stat wF pF = Inr True \<and> readFile wF pF = Inl reasonF \<longrightarrow>
      readUntrackedFileContent wF pF = js ''[Untracked file unavailable: '' @ reasonF @ js '']''"
    by (simp add: readUntrackedFileContent_def unavailable_def)
  have 7: "pG \<in> TG \<and> fileSections wG repoG cfgG SG UG TG pG trG = (trG', Inr secsG) \<longrightarrow>
      secsG \<noteq> [] \<and>
      last secsG = js ''# Untracked file content\<newline>'' @ readUntrackedFileContent wG (pathJoin wG repoG pG)"
    using untracked_section by blast
  have 8: "pH \<in> TH \<and> pH \<notin> SH \<and> pH \<notin> UH \<longrightarrow>
      fileSections wH repoH cfgH SH UH TH pH trH =
        (trH, Inr [js ''# Untracked file content\<newline>'' @ readUntrackedFileContent wH (pathJoin wH repoH pH)])"
    using untracked_only by blast
  from readUntracked_nonblank [of w p] 1 2 3 4 5 6 7 8 show ?thesis by blast
qed


lemma untracked_b:
  "fileSections examplePlatform (js ''/r'') exampleConfig {} {} {js ''b''} (js ''b'') [] =
     ([], Inr [js ''# Untracked file content\<newline>[Skipped binary file]''])"
  by (simp add: fileSections_def readUntrackedFileContent_def examplePlatform_def looksBinary_def
      js_Cons js_Nil trim_def isWhiteSpace_def)

theorem C8_readUntrackedFileContent_witness:
  "readUntrackedFileContent (fsPlatform (Inr False) (Inr [])) (js ''d'') = js ''[Skipped non-regular file]'' \<and>
   readUntrackedFileContent (fsPlatform (Inr True) (Inr [1, 65])) (js ''f'') = js ''[Skipped binary file]'' \<and>
   readUntrackedFileContent (fsPlatform (Inr True) (Inr [0, 0])) (js ''f'') = js ''[Skipped binary file]'' \<and>
   readUntrackedFileContent (fsPlatform (Inr True) (Inr [0x20, 0x0A])) (js ''f'') = js ''[Empty text file]'' \<and>
   readUntrackedFileContent (fsPlatform (Inl (js ''ENOENT'')) (Inr [])) (js ''f'')
     = js ''[Untracked file unavailable: ENOENT]'' \<and>
   readUntrackedFileContent (fsPlatform (Inr True) (Inl (js ''EACCES''))) (js ''f'')
     = js ''[Untracked file unavailable: EACCES]'' \<and>
   last [js ''# Untracked file content\<newline>[Skipped binary file]'']
     = js ''# Untracked file content\<newline>'' @ readUntrackedFileContent examplePlatform (js ''/r/b'') \<and>
   fileSections examplePlatform (js ''/r'') exampleConfig {} {} {js ''b''} (js ''b'') [] =
     ([], Inr [js ''# Untracked file content\<newline>'' @ readUntrackedFileContent examplePlatform (js ''/r/b'')])"
proof -
  have nb: "\<not> looksBinary [0x20, 0x0A]"
    by (simp add: looksBinary_def isControl_def)
  have b: "looksBinary [1, 65]"
    by (simp add: looksBinary_def isControl_def)
  have e: "trim (utf8Decode [0x20, 0x0A]) = []"
    by (simp add: utf8Decode_def toUnits_def trim_def isWhiteSpace_def)
  have j: "pathJoin examplePlatform (js ''/r'') (js ''b'') = js ''/r/b''"
    by (simp add: examplePlatform_def js_Cons js_Nil)
  from C8_readUntrackedFileContent [where wA = "fsPlatform (Inr False) (Inr [])" and pA = "js ''d''"
      and wB = "fsPlatform (Inr True) (Inr [1, 65])" and pB = "js ''f''" and bufB = "[1, 65]"
      and wC = "fsPlatform (Inr True) (Inr [0, 0])" and pC = "js ''f''"
      and wD = "fsPlatform (Inr True) (Inr [0x20, 0x0A])" and pD = "js ''f''" and bufD = "[0x20, 0x0A]"
      and wE = "fsPlatform (Inl (js ''ENOENT'')) (Inr [])" and pE = "js ''f''" and reasonE = "js ''ENOENT''"
      and wF = "fsPlatform (Inr True) (Inl (js ''EACCES''))" and pF = "js ''f''" and reasonF = "js ''EACCES''"
      and pG = "js ''b''" and TG = "{js ''b''}" and wG = examplePlatform and repoG = "js ''/r''"
      and cfgG = exampleConfig and SG = "{}" and UG = "{}" and trG = "[]" and trG' = "[]"
      and secsG = "[js ''# Untracked file content\<newline>[Skipped binary file]'']"
      and pH = "js ''b''" and TH = "{js ''b''}" and SH = "{}" and UH = "{}" and wH = examplePlatform
      and repoH = "js ''/r''" and cfgH = exampleConfig and trH = "[]"]
    nb b e j untracked_b
  show ?thesis
    by (simp add: fsPlatform_def js_Nil js_def [of "''ENOENT''"] js_def [of "''EACCES''"]
        js_def [of "''[Untracked file unavailable: ENOENT]''"] js_def [of "''[Untracked file unavailable: EACCES]''"]
        js_def [of "''[Untracked file unavailable: ''"] js_def [of "'']''"])
qed

text \<open>
  The order of the tests matters for a file that is both: a single vertical tab is
  classified binary, and its text trims to nothing; the binary test comes first.
\<close>

lemma binary_before_empty:
  "trim (utf8Decode [0x0B]) = [] \<and> looksBinary [0x0B] \<and>
   readUntrackedFileContent (fsPlatform (Inr True) (Inr [0x0B])) (js ''f'') = js ''[Skipped binary file]''"
  by (simp add: utf8Decode_def toUnits_def trim_def isWhiteSpace_def looksBinary_def isControl_def
      readUntrackedFileContent_def fsPlatform_def)

subsection \<open>Failing git commands\<close>

lemma gitFailure_None: "gitFailure args r = None \<longleftrightarrow> error r = None"
  by (simp add: gitFailure_def Let_def split: option.splits)

lemma okTrace_pure: "okTrace w repo cfg tr (tr, Inr x)"
  by (simp add: okTrace_def)

lemma okTrace_runGit: "okTrace w repo cfg tr (runGit w args repo (commandTimeoutMs cfg) tr)"
proof (cases "gitFailure args (execOf w repo cfg args)")
  case None
  then have "succeeds w repo cfg args" by (simp add: succeeds_def gitFailure_None)
  with None show ?thesis
    by (simp add: okTrace_def runGit_def Let_def execOf_def)
next
  case (Some e)
  then show ?thesis
    by (simp add: okTrace_def runGit_def Let_def execOf_def)
qed

lemma okTrace_andThen:
  assumes m: "okTrace w repo cfg tr0 m" and f: "\<And>x t. okTrace w repo cfg t (f x t)"
  shows "okTrace w repo cfg tr0 (andThen m f)"
proof -
  obtain t r where mr: "m = (t, r)" by force
  from m mr obtain new where n: "t = tr0 @ new" and
    c: "case r of Inr x \<Rightarrow> list_all (succeeds w repo cfg) new
         | Inl e \<Rightarrow> new \<noteq> [] \<and> list_all (succeeds w repo cfg) (butlast new) \<and>
                    gitFailure (last new) (execOf w repo cfg (last new)) = Some e"
    by (auto simp: okTrace_def)
  show ?thesis
  proof (cases r)
    case (Inl e)
    with mr m show ?thesis by (simp add: okTrace_def)
  next
    case (Inr x)
    with c have ok: "list_all (succeeds w repo cfg) new" by simp
    obtain t' r' where fr: "f x t = (t', r')" by force
    from f [of t x] fr obtain new' where n': "t' = t @ new'" and
      c': "case r' of Inr x \<Rightarrow> list_all (succeeds w repo cfg) new'
         | Inl e \<Rightarrow> new' \<noteq> [] \<and> list_all (succeeds w repo cfg) (butlast new') \<and>
                    gitFailure (last new') (execOf w repo cfg (last new')) = Some e"
      by (auto simp: okTrace_def)
    have t': "t' = tr0 @ (new @ new')" using n n' by simp
    have "case r' of Inr x \<Rightarrow> list_all (succeeds w repo cfg) (new @ new')
         | Inl e \<Rightarrow> new @ new' \<noteq> [] \<and> list_all (succeeds w repo cfg) (butlast (new @ new')) \<and>
                    gitFailure (last (new @ new')) (execOf w repo cfg (last (new @ new'))) = Some e"
      using c' ok by (cases r') (auto simp: butlast_append)
    with t' have "okTrace w repo cfg tr0 (t', r')"
      unfolding okTrace_def by (metis fst_conv snd_conv)
    with mr Inr fr show ?thesis by simp
  qed
qed

lemma okTrace_fetch:
  "okTrace w repo cfg t
     (if c then (t, Inr [])
      else andThen (runGit w a repo (commandTimeoutMs cfg) t) (\<lambda>out t. (t, Inr (parseLines out))))"
  by (simp add: okTrace_pure okTrace_andThen okTrace_runGit)

lemma okTrace_collectLists: "okTrace w repo cfg [] (collectLists w repo cfg)"
  unfolding collectLists_def
  by (intro okTrace_andThen okTrace_runGit okTrace_fetch okTrace_pure)

lemma okTrace_fileSections: "okTrace w repo cfg tr (fileSections w repo cfg S U T p tr)"
  unfolding fileSections_def
  by (intro okTrace_andThen okTrace_pure) (simp_all add: okTrace_pure okTrace_andThen okTrace_runGit)

lemma okTrace_fileLoop: "okTrace w repo cfg tr (fileLoop w repo cfg S U T files parts tr)"
proof (induction files arbitrary: parts tr)
  case Nil
  show ?case by (simp add: okTrace_pure)
next
  case (Cons f files)
  have "fileLoop w repo cfg S U T (f # files) parts tr =
          andThen (fileSections w repo cfg S U T f tr)
            (\<lambda>secs t. fileLoop w repo cfg S U T files
               (if length secs > 0 then parts @ [fileBlock f secs] else parts) t)"
    by (simp add: andThen_def split: prod.splits sum.splits)
  then show ?case
    using okTrace_fileSections Cons.IH by (simp add: okTrace_andThen)
qed

lemma okTrace_collect: "okTrace w repo cfg [] (collectRepositoryChanges w repo cfg)"
  unfolding collectRepositoryChanges_def collectDiffParts_def
  by (intro okTrace_andThen okTrace_collectLists)
     (auto simp: Let_def intro!: okTrace_andThen okTrace_fileLoop okTrace_pure)


lemma okTrace_extends: "okTrace w repo cfg tr0 m \<Longrightarrow> \<exists>new. fst m = tr0 @ new"
  by (auto simp: okTrace_def)

lemma starts_andThen:
  assumes "\<exists>rest. fst m = a # rest" and "\<And>x t. okTrace w repo cfg t (f x t)"
  shows "\<exists>rest. fst (andThen m f) = a # rest"
proof -
  obtain t r where mr: "m = (t, r)" by force
  show ?thesis
  proof (cases r)
    case (Inl e)
    with mr assms(1) show ?thesis by simp
  next
    case (Inr x)
    from okTrace_extends [OF assms(2) [of t x]] obtain new where "fst (f x t) = t @ new" by blast
    with mr Inr assms(1) show ?thesis by auto
  qed
qed

lemma collectLists_starts_with_status:
  "\<exists>rest. fst (collectLists w repo cfg) = statusArgs # rest"
  unfolding collectLists_def
  apply (rule starts_andThen [where w = w and repo = repo and cfg = cfg])
   apply (simp add: runGit_def Let_def)
  apply (intro okTrace_andThen okTrace_runGit okTrace_fetch okTrace_pure)
  done

lemma collect_starts_with_status:
  "\<exists>rest. fst (collectRepositoryChanges w repo cfg) = statusArgs # rest"
  unfolding collectRepositoryChanges_def collectDiffParts_def
  by (rule starts_andThen [where w = w and repo = repo and cfg = cfg, OF collectLists_starts_with_status])
     (auto simp: Let_def intro!: okTrace_andThen okTrace_fileLoop okTrace_pure)

lemma runGit_success:
  "runGit w a repo tm tr = (tr', Inr out) \<Longrightarrow> tr' = tr @ [a]"
  by (auto simp: runGit_def Let_def)

lemma fetch_trace:
  "(if c then (t, Inr []) else andThen (runGit w a repo tm t) (\<lambda>out t. (t, Inr (parseLines out))))
     = (t', Inr xs) \<Longrightarrow> t' = t @ (if c then [] else [a])"
  by (cases c) (auto dest!: andThen_success runGit_success)

lemma collectLists_trace:
  assumes "collectLists w repo cfg = (t4, Inr x)"
  shows "t4 = [statusArgs, stagedNamesArgs] @
              (if includeOnlyStaged cfg then [] else [unstagedNamesArgs, untrackedNamesArgs])"
proof -
  from andThen_success [OF assms [unfolded collectLists_def]] obtain t1 s1 where
    r1: "runGit w statusArgs repo (commandTimeoutMs cfg) [] = (t1, Inr s1)" and
    a1: "andThen (runGit w stagedNamesArgs repo (commandTimeoutMs cfg) t1) (\<lambda>stagedOut t2.
     andThen (if includeOnlyStaged cfg then (t2, Inr [])
              else andThen (runGit w unstagedNamesArgs repo (commandTimeoutMs cfg) t2)
                     (\<lambda>out t. (t, Inr (parseLines out)))) (\<lambda>unstagedFiles t3.
     andThen (if includeOnlyStaged cfg then (t3, Inr [])
              else andThen (runGit w untrackedNamesArgs repo (commandTimeoutMs cfg) t3)
                     (\<lambda>out t. (t, Inr (parseLines out)))) (\<lambda>untrackedFiles t4.
     (t4, Inr (s1, parseLines stagedOut, unstagedFiles, untrackedFiles))))) = (t4, Inr x)"
    by blast
  from andThen_success [OF a1] obtain t2 s2 where
    r2: "runGit w stagedNamesArgs repo (commandTimeoutMs cfg) t1 = (t2, Inr s2)" and
    a2: "andThen (if includeOnlyStaged cfg then (t2, Inr [])
              else andThen (runGit w unstagedNamesArgs repo (commandTimeoutMs cfg) t2)
                     (\<lambda>out t. (t, Inr (parseLines out)))) (\<lambda>unstagedFiles t3.
     andThen (if includeOnlyStaged cfg then (t3, Inr [])
              else andThen (runGit w untrackedNamesArgs repo (commandTimeoutMs cfg) t3)
                     (\<lambda>out t. (t, Inr (parseLines out)))) (\<lambda>untrackedFiles t4.
     (t4, Inr (s1, parseLines s2, unstagedFiles, untrackedFiles)))) = (t4, Inr x)"
    by blast
  from andThen_success [OF a2] obtain t3 x3 where
    f3: "(if includeOnlyStaged cfg then (t2, Inr [])
              else andThen (runGit w unstagedNamesArgs repo (commandTimeoutMs cfg) t2)
                     (\<lambda>out t. (t, Inr (parseLines out)))) = (t3, Inr x3)" and
    a3: "andThen (if includeOnlyStaged cfg then (t3, Inr [])
              else andThen (runGit w untrackedNamesArgs repo (commandTimeoutMs cfg) t3)
                     (\<lambda>out t. (t, Inr (parseLines out)))) (\<lambda>untrackedFiles t4.
     (t4, Inr (s1, parseLines s2, x3, untrackedFiles))) = (t4, Inr x)"
    by blast
  from andThen_success [OF a3] obtain t4' x4 where
    f4: "(if includeOnlyStaged cfg then (t3, Inr [])
              else andThen (runGit w untrackedNamesArgs repo (commandTimeoutMs cfg) t3)
                     (\<lambda>out t. (t, Inr (parseLines out)))) = (t4', Inr x4)" and
    a4: "(t4', Inr (s1, parseLines s2, x3, x4)) = (t4, Inr x)"
    by blast
  from runGit_success [OF r1] runGit_success [OF r2] fetch_trace [OF f3] fetch_trace [OF f4] a4
  show ?thesis by (cases "includeOnlyStaged cfg") auto
qed

text \<open>The diff commands the loop issues for one path, and for a list of paths.\<close>

lemma fileSections_trace:
  assumes "fileSections w repo cfg S U T p tr = (tr', Inr secs)"
  shows "tr' = tr @ (if p \<in> S then [stagedDiffArgs p] else []) @ (if p \<in> U then [unstagedDiffArgs p] else [])"
proof -
  from andThen_success [OF assms [unfolded fileSections_def]] obtain t1 s1 where
    f1: "(if p \<in> S
              then andThen (runGit w (stagedDiffArgs p) repo (commandTimeoutMs cfg) tr)
                     (\<lambda>stagedDiff t.
                        (t, Inr (if trim stagedDiff \<noteq> []
                                 then [js ''# Staged diff\<newline>'' @ stagedDiff] else [])))
              else (tr, Inr [])) = (t1, Inr s1)" and
    a: "andThen (if p \<in> U
              then andThen (runGit w (unstagedDiffArgs p) repo (commandTimeoutMs cfg) t1)
                     (\<lambda>unstagedDiff t.
                        (t, Inr (if trim unstagedDiff \<noteq> []
                                 then s1 @ [js ''# Unstaged diff\<newline>'' @ unstagedDiff]
                                 else s1)))
              else (t1, Inr s1)) (\<lambda>sections2 t2.
     (t2, Inr (if p \<in> T
               then (let untrackedContent = readUntrackedFileContent w (pathJoin w repo p)
                     in if trim untrackedContent \<noteq> []
                        then sections2 @ [js ''# Untracked file content\<newline>'' @ untrackedContent]
                        else sections2)
               else sections2))) = (tr', Inr secs)"
    by blast
  from andThen_success [OF a] obtain t2 s2 where
    f2: "(if p \<in> U
              then andThen (runGit w (unstagedDiffArgs p) repo (commandTimeoutMs cfg) t1)
                     (\<lambda>unstagedDiff t.
                        (t, Inr (if trim unstagedDiff \<noteq> []
                                 then s1 @ [js ''# Unstaged diff\<newline>'' @ unstagedDiff]
                                 else s1)))
              else (t1, Inr s1)) = (t2, Inr s2)" and
    b: "t2 = tr'"
    by auto
  have 1: "t1 = tr @ (if p \<in> S then [stagedDiffArgs p] else [])"
    using f1 by (cases "p \<in> S") (auto dest!: andThen_success runGit_success)
  have 2: "t2 = t1 @ (if p \<in> U then [unstagedDiffArgs p] else [])"
    using f2 by (cases "p \<in> U") (auto dest!: andThen_success runGit_success)
  from 1 2 b show ?thesis by simp
qed

lemma fileLoop_trace:
  "fileLoop w repo cfg S U T files parts tr = (tr', Inr parts') \<Longrightarrow>
   tr' = tr @ concat (map (\<lambda>p. (if p \<in> S then [stagedDiffArgs p] else []) @
                                 (if p \<in> U then [unstagedDiffArgs p] else [])) files)"
proof (induction files arbitrary: parts tr)
  case Nil
  then show ?case by simp
next
  case (Cons f files)
  obtain t r where fs: "fileSections w repo cfg S U T f tr = (t, r)" by force
  show ?case
  proof (cases r)
    case (Inl e)
    with Cons.prems fs show ?thesis by simp
  next
    case (Inr secs)
    from Cons.prems fs Inr have
      "fileLoop w repo cfg S U T files (if length secs > 0 then parts @ [fileBlock f secs] else parts) t
         = (tr', Inr parts')" by simp
    from Cons.IH [OF this] fileSections_trace [OF fs [unfolded Inr]] show ?thesis by simp
  qed
qed

lemma collect_trace:
  assumes "collectRepositoryChanges w repo cfg = (tr, Inr snap)"
  shows "\<exists>t4 st sf uf utf.
           collectLists w repo cfg = (t4, Inr (st, sf, uf, utf)) \<and>
           tr = [statusArgs, stagedNamesArgs] @
                (if includeOnlyStaged cfg then [] else [unstagedNamesArgs, untrackedNamesArgs]) @
                concat (map (\<lambda>p. (if p \<in> set sf then [stagedDiffArgs p] else []) @
                                  (if p \<in> set uf then [unstagedDiffArgs p] else []))
                          (limitedFilesOf cfg (allChangedFilesOf sf uf utf)))"
proof -
  from collect_success [OF assms] obtain t4 st sf uf utf parts where
    l: "collectLists w repo cfg = (t4, Inr (st, sf, uf, utf))" and
    p: "collectDiffParts w repo cfg sf uf utf t4 = (tr, Inr parts)" by blast
  from fileLoop_trace [OF p [unfolded collectDiffParts_def]] collectLists_trace [OF l] l
  show ?thesis by simp
qed

text \<open>
  C7. The trace of a collection lists the git commands it issued, in order, beginning
  with the status fetch. If a command of the trace fails (\<open>execFile\<close> reports an error,
  whatever its cause), the collection is rejected: there is no snapshot, the error reads
  \<open>git <arguments joined by spaces> failed: <details>\<close>, where the details are the
  trimmed text of stderr, or the message of the error when that text is empty; the
  failing command is the last one issued, and all before it succeeded.
\<close>

theorem C7_git_failure_aborts:
  assumes "collectRepositoryChanges w repo cfg = (tr, r)"
    and "args \<in> set tr"
    and "error (execOf w repo cfg args) = Some message"
  shows "r = Inl (js ''git '' @ join (js '' '') args @ js '' failed: '' @
                  (if trim (stderr (execOf w repo cfg args)) \<noteq> []
                   then trim (stderr (execOf w repo cfg args)) else message)) \<and>
         (\<exists>rest. tr = statusArgs # rest) \<and>
         args = last tr \<and>
         list_all (succeeds w repo cfg) (butlast tr)"
proof -
  have f: "\<not> succeeds w repo cfg args" using assms(3) by (simp add: succeeds_def)
  from okTrace_collect [of w repo cfg] assms(1) have
    c: "case r of Inr x \<Rightarrow> list_all (succeeds w repo cfg) tr
         | Inl e \<Rightarrow> tr \<noteq> [] \<and> list_all (succeeds w repo cfg) (butlast tr) \<and>
                    gitFailure (last tr) (execOf w repo cfg (last tr)) = Some e"
    by (simp add: okTrace_def)
  from collect_starts_with_status [of w repo cfg] assms(1) have s: "\<exists>rest. tr = statusArgs # rest"
    by simp
  show ?thesis
  proof (cases r)
    case (Inr x)
    with c assms(2) f show ?thesis by (auto simp: list_all_iff)
  next
    case (Inl e)
    with c have ne: "tr \<noteq> []" and b: "list_all (succeeds w repo cfg) (butlast tr)"
      and g: "gitFailure (last tr) (execOf w repo cfg (last tr)) = Some e" by simp_all
    from ne have "tr = butlast tr @ [last tr]" by simp
    then have "set tr = set (butlast tr) \<union> {last tr}"
      by (metis list.set(1) list.simps(15) set_append Un_insert_right sup_bot.right_neutral)
    with assms(2) b f have a: "args = last tr" by (auto simp: list_all_iff)
    from g a assms(3) have "e = js ''git '' @ join (js '' '') args @ js '' failed: '' @
                  (if trim (stderr (execOf w repo cfg args)) \<noteq> []
                   then trim (stderr (execOf w repo cfg args)) else message)"
      by (auto simp: gitFailure_def Let_def)
    with Inl s a b show ?thesis by simp
  qed
qed


lemma failing_collect:
  "collectRepositoryChanges failingPlatform (js ''/r'') exampleConfig =
     ([statusArgs, stagedNamesArgs, unstagedNamesArgs, untrackedNamesArgs, stagedDiffArgs (js ''a''),
       unstagedDiffArgs (js ''a'')],
      Inl (js ''git diff --no-color --no-ext-diff -- a failed: fatal: bad''))"
  by (simp add: collectRepositoryChanges_def evaldefs failingPlatform_def)

lemma silent_collect:
  "collectRepositoryChanges silentPlatform (js ''/r'') exampleConfig =
     ([statusArgs], Inl (js ''git status --short failed: spawnSync git ETIMEDOUT''))"
  by (simp add: collectRepositoryChanges_def evaldefs silentPlatform_def)

theorem C7_git_failure_aborts_witness:
  "snd (collectRepositoryChanges failingPlatform (js ''/r'') exampleConfig)
     = Inl (js ''git diff --no-color --no-ext-diff -- a failed: fatal: bad'') \<and>
   error (execOf failingPlatform (js ''/r'') exampleConfig (unstagedDiffArgs (js ''a'')))
     = Some (js ''Command failed'') \<and>
   snd (collectRepositoryChanges silentPlatform (js ''/r'') exampleConfig)
     = Inl (js ''git status --short failed: spawnSync git ETIMEDOUT'') \<and>
   error (execOf silentPlatform (js ''/r'') exampleConfig statusArgs) = Some (js ''spawnSync git ETIMEDOUT'')"
proof -
  have e1: "error (execOf failingPlatform (js ''/r'') exampleConfig (unstagedDiffArgs (js ''a'')))
     = Some (js ''Command failed'')"
    by (simp add: execOf_def failingPlatform_def examplePlatform_def)
  have e2: "error (execOf silentPlatform (js ''/r'') exampleConfig statusArgs) = Some (js ''spawnSync git ETIMEDOUT'')"
    by (simp add: execOf_def silentPlatform_def examplePlatform_def)
  have s1: "stderr (execOf failingPlatform (js ''/r'') exampleConfig (unstagedDiffArgs (js ''a'')))
     = js ''fatal: bad\<newline>''"
    by (simp add: execOf_def failingPlatform_def examplePlatform_def)
  have s2: "stderr (execOf silentPlatform (js ''/r'') exampleConfig statusArgs) = js '' \<newline>''"
    by (simp add: execOf_def silentPlatform_def examplePlatform_def)
  have m1: "unstagedDiffArgs (js ''a'') \<in> set [statusArgs, stagedNamesArgs, unstagedNamesArgs,
       untrackedNamesArgs, stagedDiffArgs (js ''a''), unstagedDiffArgs (js ''a'')]" by simp
  have m2: "statusArgs \<in> set [statusArgs]" by simp
  from C7_git_failure_aborts [OF failing_collect m1 e1] C7_git_failure_aborts [OF silent_collect m2 e2]
    e1 e2
  show ?thesis
    by (simp add: s1 s2 failing_collect silent_collect)
qed

subsection \<open>UTF-8: encoding, decoding and the byte budget\<close>

lemma unat_lt_80: "(u :: 16 word) < 0x80 \<Longrightarrow> unat u < 0x80"
  by (simp add: word_less_nat_alt)

lemma ascii_not_high: "(u :: 16 word) < 0x80 \<Longrightarrow> \<not> isHigh u"
  by (simp add: isHigh_def word_less_nat_alt word_le_nat_alt)

lemma codePoints_nohigh_append:
  "\<forall>u\<in>set p. \<not> isHigh u \<Longrightarrow> codePoints (p @ s) = map unat p @ codePoints s"
proof (induction p)
  case Nil
  then show ?case by simp
next
  case (Cons u p)
  then have h: "\<not> isHigh u" and ih: "codePoints (p @ s) = map unat p @ codePoints s" by simp_all
  show ?case
  proof (cases "p @ s")
    case Nil
    then show ?thesis by simp
  next
    case (Cons v r)
    then have "codePoints ((u # p) @ s) = unat u # codePoints (p @ s)" using h by simp
    with ih show ?thesis by simp
  qed
qed

lemma encode_ascii: "\<forall>c\<in>set cs. c < 0x80 \<Longrightarrow> concat (map encodeCodePoint cs) = cs"
  by (induction cs) (auto simp: encodeCodePoint_def)

lemma utf8Encode_append_nohigh:
  assumes "\<forall>u\<in>set p. u < 0x80"
  shows "utf8Encode (p @ s) = map ucast p @ utf8Encode s"
proof -
  have 1: "codePoints (p @ s) = map unat p @ codePoints s"
    using assms by (intro codePoints_nohigh_append) (auto dest: ascii_not_high)
  have 2: "concat (map encodeCodePoint (map unat p)) = map unat p"
    using assms by (intro encode_ascii) (auto dest: unat_lt_80)
  have "utf8Encode (p @ s) = map of_nat (map unat p) @ utf8Encode s"
    unfolding utf8Encode_def 1 by (simp only: map_append concat_append 2)
  then show ?thesis by (simp add: comp_def)
qed


lemma decode_ascii_append:
  "\<forall>b\<in>set p. b < 0x80 \<Longrightarrow> decodeCodePoints (p @ r) = p @ decodeCodePoints r"
  by (induction p) auto

lemma toUnits_ascii: "\<forall>c\<in>set cs. c < 0x10000 \<Longrightarrow> concat (map toUnits cs) = map of_nat cs"
  by (induction cs) (auto simp: toUnits_def)

lemma unat8_lt_80: "(b :: 8 word) < 0x80 \<Longrightarrow> unat b < 0x80"
  by (simp add: word_less_nat_alt)

lemma utf8Decode_append_ascii:
  assumes "\<forall>b\<in>set p. b < 0x80"
  shows "utf8Decode (p @ r) = map ucast p @ utf8Decode r"
proof -
  have a: "\<forall>b\<in>set (map unat p). b < 0x80" using assms by (auto dest: unat8_lt_80)
  have 1: "decodeCodePoints (map unat p @ map unat r) = map unat p @ decodeCodePoints (map unat r)"
    using a by (rule decode_ascii_append)
  have 2: "concat (map toUnits (map unat p)) = map of_nat (map unat p)"
    using a by (intro toUnits_ascii) auto
  have "utf8Decode (p @ r) = map of_nat (map unat p) @ utf8Decode r"
    unfolding utf8Decode_def map_append 1 by (simp only: map_append concat_append 2)
  then show ?thesis by (simp add: comp_def)
qed

lemma byteLength_ascii: "\<forall>u\<in>set p. u < 0x80 \<Longrightarrow> byteLength p = length p"
  using utf8Encode_append_nohigh [of p "[]"] by (simp add: byteLength_def utf8Encode_def)

lemma marker_length: "length truncationMarker = 44"
  by (simp add: truncationMarker_def js_def)

lemma marker_ascii: "\<forall>u\<in>set truncationMarker. u < 0x80"
  by (simp add: truncationMarker_def js_Cons js_Nil)

lemma marker_bytes: "byteLength truncationMarker = 44"
  by (simp add: byteLength_ascii marker_ascii marker_length)

lemma utf8Encode_e9: "utf8Encode [0xE9] = [0xC3, 0xA9]"
  by (simp add: utf8Encode_def encodeCodePoint_def)

lemma utf8Decode_c3: "utf8Decode [0xC3] = [0xFFFD]"
  by (simp add: utf8Decode_def toUnits_def)

lemma utf8Encode_fffd: "utf8Encode [0xFFFD] = [0xEF, 0xBF, 0xBD]"
  by (simp add: utf8Encode_def encodeCodePoint_def isSurrogate_def)

lemma ucast_back: "(u :: 16 word) < 0x80 \<Longrightarrow> ucast (ucast u :: 8 word) = u"
proof -
  assume a: "u < 0x80"
  then have n: "unat u < 0x80" by (simp add: word_less_nat_alt)
  have "unat (ucast (ucast u :: 8 word) :: 16 word) = unat u"
    using n by (simp add: unsigned_ucast_eq unsigned_take_bit_eq take_bit_nat_eq_self)
  then show ?thesis by (simp add: word_unat_eq_iff)
qed

lemma ucast_lt: "(u :: 16 word) < 0x80 \<Longrightarrow> (ucast u :: 8 word) < 0x80"
proof -
  assume a: "u < 0x80"
  then have n: "unat u < 0x80" by (simp add: word_less_nat_alt)
  then have "unat (ucast u :: 8 word) < 0x80" by (simp add: unsigned_ucast_eq take_bit_nat_eq_self)
  then show ?thesis by (simp add: word_less_nat_alt)
qed

lemma trimUtf8_inside_ascii:
  assumes "\<forall>u\<in>set p. u < 0x80"
  shows "trimUtf8 (p @ [0xE9]) (int (length p) + 1) = (p @ [0xFFFD] @ truncationMarker, True)"
proof -
  have b: "\<forall>b\<in>set (map ucast p :: byte list). b < 0x80" using assms by (auto dest: ucast_lt)
  have e: "utf8Encode (p @ [0xE9]) = map ucast p @ [0xC3, 0xA9]"
    using utf8Encode_append_nohigh [OF assms, of "[0xE9]"] by (simp add: utf8Encode_e9)
  have l: "byteLength (p @ [0xE9]) = length p + 2"
    by (simp add: byteLength_def e)
  have s: "sliceTo (map ucast p @ [0xC3, 0xA9 :: byte]) (int (length p) + 1) = map ucast p @ [0xC3]"
    by (simp add: sliceTo_def nat_add_distrib)
  have "map ucast (map ucast p :: byte list) = p"
    using assms by (induction p) (simp_all add: ucast_back)
  then have d: "utf8Decode (map ucast p @ [0xC3]) = p @ [0xFFFD]"
    using utf8Decode_append_ascii [OF b, of "[0xC3]"] by (simp add: utf8Decode_c3)
  show ?thesis
    by (simp add: trimUtf8_def Let_def l e s d)
qed

lemma trimUtf8_inside_ascii_bytes:
  assumes "\<forall>u\<in>set p. u < 0x80"
  shows "byteLength (fst (trimUtf8 (p @ [0xE9]) (int (length p) + 1))) = length p + 3 + byteLength truncationMarker"
proof -
  have m: "utf8Encode ([0xFFFD] @ truncationMarker) = [0xEF, 0xBF, 0xBD] @ utf8Encode truncationMarker"
    by (simp add: utf8Encode_def truncationMarker_def js_Cons js_Nil encodeCodePoint_def isSurrogate_def isHigh_def)
  have "utf8Encode (p @ [0xFFFD] @ truncationMarker)
      = map ucast p @ [0xEF, 0xBF, 0xBD] @ utf8Encode truncationMarker"
    using utf8Encode_append_nohigh [OF assms, of "[0xFFFD] @ truncationMarker"] m by simp
  then show ?thesis
    by (simp add: trimUtf8_inside_ascii [OF assms] byteLength_def)
qed

lemma encode_bytes: "c < 0x110000 \<Longrightarrow> b \<in> set (encodeCodePoint c) \<Longrightarrow> b < 256"
  unfolding encodeCodePoint_def isSurrogate_def
  by (auto split: if_splits)

lemma decode_encode_1: "c < 0x80 \<Longrightarrow> decodeCodePoints (encodeCodePoint c @ r) = c # decodeCodePoints r"
  by (simp add: encodeCodePoint_def)

lemma div_lt: "(c::nat) < k * n \<Longrightarrow> c div n < k"
  by (rule less_mult_imp_div_less)

lemma div_ge: "0 < n \<Longrightarrow> k * n \<le> (c::nat) \<Longrightarrow> k \<le> c div n"
  using div_le_mono [of "k * n" c n] by simp

lemma split_gen: "(x::nat) div 64 * (64 * k) + x mod 64 * k = x * k"
proof -
  have "x * k = (x div 64 * 64 + x mod 64) * k" by simp
  also have "\<dots> = x div 64 * 64 * k + x mod 64 * k" by (rule add_mult_distrib)
  finally show ?thesis by (simp add: mult.assoc)
qed

lemma split2: "(x::nat) div 64 * 4096 + x mod 64 * 64 = x * 64"
  using split_gen [of x 64] by simp

lemma split3: "(x::nat) div 64 * 0x40000 + x mod 64 * 0x1000 = x * 0x1000"
  using split_gen [of x "0x1000"] by simp

lemma value3: "(c::nat) div 0x1000 * 0x1000 + c div 0x40 mod 0x40 * 0x40 + c mod 0x40 = c"
proof -
  have 1: "c div 0x1000 = c div 0x40 div 0x40" by (simp add: div_mult2_eq)
  have 3: "c div 0x40 * 0x40 + c mod 0x40 = c" by (rule div_mult_mod_eq)
  show ?thesis unfolding 1 using split2 [of "c div 0x40"] 3 by simp
qed

lemma value4:
  "(c::nat) div 0x40000 * 0x40000 + c div 0x1000 mod 0x40 * 0x1000 + c div 0x40 mod 0x40 * 0x40 + c mod 0x40 = c"
proof -
  have 1: "c div 0x40000 = c div 0x1000 div 0x40" by (simp add: div_mult2_eq)
  have "c div 0x1000 div 0x40 * 0x40000 + c div 0x1000 mod 0x40 * 0x1000 = c div 0x1000 * 0x1000"
    by (rule split3)
  with value3 [of c] show ?thesis unfolding 1 by simp
qed

lemma mod64: "(x::nat) mod 0x40 < 0x40"
  by simp

lemma decode_encode_2:
  assumes "0x80 \<le> c" "c < 0x800"
  shows "decodeCodePoints (encodeCodePoint c @ r) = c # decodeCodePoints r"
proof -
  have e: "encodeCodePoint c = [0xC0 + c div 0x40, 0x80 + c mod 0x40]"
    using assms by (simp add: encodeCodePoint_def)
  have lo: "2 \<le> c div 0x40" using assms(1) by (intro div_ge) simp_all
  have hi: "c div 0x40 < 0x20" using assms(2) by (intro div_lt) simp
  have m: "c mod 0x40 < 0x40" by simp
  have v: "c div 0x40 * 0x40 + c mod 0x40 = c" by simp
  show ?thesis unfolding e using lo hi m v by (simp add: cont_def)
qed

lemma decode_encode_sur:
  assumes "isSurrogate c"
  shows "decodeCodePoints (encodeCodePoint c @ r) = 0xFFFD # decodeCodePoints r"
proof -
  have e: "encodeCodePoint c = [0xEF, 0xBF, 0xBD]"
    using assms by (simp add: encodeCodePoint_def isSurrogate_def)
  show ?thesis unfolding e by (simp add: cont_def lower2_def upper2_def)
qed

lemma decode_encode_3:
  assumes "0x800 \<le> c" "c < 0x10000" "\<not> isSurrogate c"
  shows "decodeCodePoints (encodeCodePoint c @ r) = c # decodeCodePoints r"
proof -
  define q where "q = c div 0x1000"
  define s where "s = c div 0x40 mod 0x40"
  define t where "t = c mod 0x40"
  have e: "encodeCodePoint c = [0xE0 + q, 0x80 + s, 0x80 + t]"
    using assms by (simp add: encodeCodePoint_def q_def s_def t_def)
  have q: "q < 0x10" unfolding q_def using assms(2) by (intro div_lt) simp
  have s: "s < 0x40" unfolding s_def by simp
  have t: "t < 0x40" unfolding t_def by simp
  have x: "c div 0x40 = q * 0x40 + s"
  proof -
    have "c div 0x1000 = c div 0x40 div 0x40" by (simp add: div_mult2_eq)
    then show ?thesis unfolding q_def s_def by simp
  qed
  have lo: "q = 0 \<Longrightarrow> 0x20 \<le> s"
  proof -
    assume "q = 0"
    with x have "s = c div 0x40" by simp
    moreover have "0x20 \<le> c div 0x40" using assms(1) by (intro div_ge) simp_all
    ultimately show ?thesis by simp
  qed
  have hi: "q = 0xD \<Longrightarrow> s < 0x20"
  proof -
    assume "q = 0xD"
    with x have "c div 0x40 = 0x340 + s" by simp
    moreover have "c div 0x1000 < 0xE" using \<open>q = 0xD\<close> unfolding q_def by simp
    then have "c < 0xE000" by (simp add: div_less_iff_less_mult)
    with assms(3) have "c < 0xD800" by (simp add: isSurrogate_def)
    then have "c div 0x40 < 0x360" by (intro div_lt) simp
    ultimately show ?thesis by simp
  qed
  have c: "cont (lower2 (0xE0 + q)) (upper2 (0xE0 + q)) (0x80 + s)"
    using lo hi s q by (auto simp: cont_def lower2_def upper2_def)
  have v: "q * 0x1000 + s * 0x40 + t = c"
    unfolding q_def s_def t_def by (rule value3)
  show ?thesis unfolding e using q c t v by (simp add: cont_def)
qed

lemma decode_encode_4:
  assumes "0x10000 \<le> c" "c < 0x110000"
  shows "decodeCodePoints (encodeCodePoint c @ r) = c # decodeCodePoints r"
proof -
  define q where "q = c div 0x40000"
  define s where "s = c div 0x1000 mod 0x40"
  define t where "t = c div 0x40 mod 0x40"
  define u where "u = c mod 0x40"
  have ns: "\<not> isSurrogate c" using assms by (simp add: isSurrogate_def)
  have e: "encodeCodePoint c = [0xF0 + q, 0x80 + s, 0x80 + t, 0x80 + u]"
    using assms ns by (simp add: encodeCodePoint_def q_def s_def t_def u_def)
  have q: "q < 5" unfolding q_def using assms(2) by (intro div_lt) simp
  have s: "s < 0x40" unfolding s_def by simp
  have t: "t < 0x40" unfolding t_def by simp
  have u: "u < 0x40" unfolding u_def by simp
  have x: "c div 0x1000 = q * 0x40 + s"
  proof -
    have "c div 0x40000 = c div 0x1000 div 0x40" by (simp add: div_mult2_eq)
    then show ?thesis unfolding q_def s_def by simp
  qed
  have lo: "q = 0 \<Longrightarrow> 0x10 \<le> s"
  proof -
    assume "q = 0"
    with x have "s = c div 0x1000" by simp
    moreover have "0x10 \<le> c div 0x1000" using assms(1) by (intro div_ge) simp_all
    ultimately show ?thesis by simp
  qed
  have hi: "q = 4 \<Longrightarrow> s < 0x10"
  proof -
    assume "q = 4"
    with x have "c div 0x1000 = 0x100 + s" by simp
    moreover have "c div 0x1000 < 0x110" using assms(2) by (intro div_lt) simp
    ultimately show ?thesis by simp
  qed
  have c: "cont (lower2 (0xF0 + q)) (upper2 (0xF0 + q)) (0x80 + s)"
    using lo hi s q by (auto simp: cont_def lower2_def upper2_def)
  have v: "q * 0x40000 + s * 0x1000 + t * 0x40 + u = c"
    unfolding q_def s_def t_def u_def by (rule value4)
  show ?thesis unfolding e using q c t u v by (simp add: cont_def)
qed

lemma decode_encode:
  assumes "c < 0x110000"
  shows "decodeCodePoints (encodeCodePoint c @ r) = (if isSurrogate c then 0xFFFD else c) # decodeCodePoints r"
proof -
  consider "c < 0x80" | "0x80 \<le> c \<and> c < 0x800" | "isSurrogate c"
    | "0x800 \<le> c \<and> c < 0x10000 \<and> \<not> isSurrogate c" | "0x10000 \<le> c"
    by arith
  then show ?thesis
  proof cases
    case 1
    then have "\<not> isSurrogate c" by (simp add: isSurrogate_def)
    with 1 show ?thesis by (simp add: decode_encode_1 del: decodeCodePoints.simps)
  next
    case 2
    then have "\<not> isSurrogate c" by (simp add: isSurrogate_def)
    with 2 show ?thesis by (simp add: decode_encode_2 del: decodeCodePoints.simps)
  next
    case 3
    then show ?thesis by (simp add: decode_encode_sur del: decodeCodePoints.simps)
  next
    case 4
    then show ?thesis by (simp add: decode_encode_3 del: decodeCodePoints.simps)
  next
    case 5
    then have "\<not> isSurrogate c" by (simp add: isSurrogate_def)
    with 5 assms show ?thesis by (simp add: decode_encode_4 del: decodeCodePoints.simps)
  qed
qed


lemma unat16_bound: "unat (u :: 16 word) < 0x10000"
proof -
  have "unat u < 2 ^ LENGTH(16)" by (rule unsigned_less)
  then show ?thesis by simp
qed

lemma codePoints_bound: "c \<in> set (codePoints s) \<Longrightarrow> c < 0x110000"
proof (induction s rule: codePoints.induct)
  case 1
  then show ?case by simp
next
  case (2 u)
  then show ?case using unat16_bound [of u] by simp
next
  case (3 u v us)
  show ?case
  proof (cases "isHigh u \<and> isLow v")
    case True
    then have h: "unat u \<le> 0xDBFF" and l: "unat v \<le> 0xDFFF"
      by (simp_all add: isHigh_def isLow_def word_le_nat_alt)
    from h have "(unat u - 0xD800) * 0x400 \<le> 0x3FF * 0x400" by (intro mult_le_mono1) simp
    with l have "0x10000 + (unat u - 0xD800) * 0x400 + (unat v - 0xDC00) < 0x110000" by simp
    with True 3 show ?thesis by auto
  next
    case False
    with 3 show ?thesis using unat16_bound [of u] by auto
  qed
qed

lemma decode_concat:
  "\<forall>c\<in>set cs. c < 0x110000 \<Longrightarrow>
   decodeCodePoints (concat (map encodeCodePoint cs)) = map (\<lambda>c. if isSurrogate c then 0xFFFD else c) cs"
  by (induction cs) (simp_all add: decode_encode del: decodeCodePoints.simps, simp)

lemma unat16_of_nat: "c < 0x10000 \<Longrightarrow> unat (of_nat c :: 16 word) = c"
  by (simp add: unat_of_nat)

lemma codePoints_toUnits:
  assumes "c < 0x110000" "\<not> isSurrogate c"
  shows "codePoints (toUnits c @ s) = c # codePoints s"
proof (cases "c < 0x10000")
  case True
  have u: "unat (of_nat c :: 16 word) = c" using True by (rule unat16_of_nat)
  have nh: "\<not> isHigh (of_nat c)"
    using assms(2) u by (auto simp: isHigh_def isSurrogate_def word_le_nat_alt)
  show ?thesis
  proof (cases s)
    case Nil
    with True u show ?thesis by (simp add: toUnits_def)
  next
    case (Cons v vs)
    with True u nh show ?thesis by (simp add: toUnits_def)
  qed
next
  case False
  define d where "d = c - 0x10000"
  have d: "d < 0x100000" "c = 0x10000 + d" using assms(1) False by (simp_all add: d_def)
  have q: "d div 0x400 < 0x400" using d(1) by (intro div_lt) simp
  have r: "d mod 0x400 < 0x400" by simp
  have hu: "unat (of_nat (0xD800 + d div 0x400) :: 16 word) = 0xD800 + d div 0x400"
    using q by (intro unat16_of_nat) simp
  have lu: "unat (of_nat (0xDC00 + d mod 0x400) :: 16 word) = 0xDC00 + d mod 0x400"
    using r by (intro unat16_of_nat) simp
  have h: "isHigh (of_nat (0xD800 + d div 0x400))"
    unfolding isHigh_def word_le_nat_alt hu using q by simp
  have l: "isLow (of_nat (0xDC00 + d mod 0x400))"
    unfolding isLow_def word_le_nat_alt lu using r by simp
  have t: "toUnits c = [of_nat (0xD800 + d div 0x400), of_nat (0xDC00 + d mod 0x400)]"
    using False by (simp add: toUnits_def d_def)
  have v: "0x10000 + d div 0x400 * 0x400 + d mod 0x400 = c" using d(2) by simp
  show ?thesis unfolding t using h l hu lu v by simp
qed

lemma codePoints_concat_toUnits:
  "\<forall>c\<in>set cs. c < 0x110000 \<and> \<not> isSurrogate c \<Longrightarrow> codePoints (concat (map toUnits cs)) = cs"
  by (induction cs) (simp_all add: codePoints_toUnits)

lemma encode_sanitized_length:
  "length (encodeCodePoint (if isSurrogate c then 0xFFFD else c)) = length (encodeCodePoint c)"
  by (simp add: encodeCodePoint_def isSurrogate_def)

lemma map_unat_of_nat: "\<forall>b\<in>set bs. b < 256 \<Longrightarrow> map unat (map of_nat bs :: 8 word list) = bs"
  by (induction bs) (simp_all add: unat_of_nat)

text \<open>Decoding what was encoded gives the string back, with U+FFFD for each lone surrogate.\<close>

lemma utf8Decode_utf8Encode:
  "utf8Decode (utf8Encode p) =
     concat (map toUnits (map (\<lambda>c. if isSurrogate c then 0xFFFD else c) (codePoints p)))"
proof -
  have b: "\<forall>b\<in>set (concat (map encodeCodePoint (codePoints p))). b < 256"
    by (auto dest: codePoints_bound encode_bytes)
  have c: "\<forall>c\<in>set (codePoints p). c < 0x110000" by (auto dest: codePoints_bound)
  show ?thesis
    unfolding utf8Decode_def utf8Encode_def map_unat_of_nat [OF b] decode_concat [OF c] ..
qed

lemma byteLength_codePoints: "byteLength s = length (concat (map encodeCodePoint (codePoints s)))"
  by (simp add: byteLength_def utf8Encode_def)

lemma byteLength_roundtrip: "byteLength (utf8Decode (utf8Encode p)) = byteLength p"
proof -
  let ?f = "\<lambda>c. if isSurrogate c then 0xFFFD else c"
  have s: "\<forall>c\<in>set (map ?f (codePoints p)). c < 0x110000 \<and> \<not> isSurrogate c"
    by (auto dest: codePoints_bound simp: isSurrogate_def)
  have 1: "codePoints (utf8Decode (utf8Encode p)) = map ?f (codePoints p)"
    unfolding utf8Decode_utf8Encode by (rule codePoints_concat_toUnits [OF s])
  have "byteLength (utf8Decode (utf8Encode p)) = length (concat (map encodeCodePoint (map ?f (codePoints p))))"
    unfolding byteLength_codePoints 1 ..
  also have "\<dots> = length (concat (map encodeCodePoint (codePoints p)))"
    by (simp add: length_concat comp_def encode_sanitized_length)
  finally show ?thesis by (simp add: byteLength_def utf8Encode_def)
qed

lemma codePoints_append:
  "t = [] \<or> \<not> isLow (hd t) \<Longrightarrow> codePoints (s @ t) = codePoints s @ codePoints t"
proof (induction s rule: codePoints.induct)
  case 1
  then show ?case by simp
next
  case (2 u)
  then show ?case by (cases t) auto
next
  case (3 u v us)
  then show ?case by simp
qed

lemma byteLength_append:
  "t = [] \<or> \<not> isLow (hd t) \<Longrightarrow> byteLength (s @ t) = byteLength s + byteLength t"
  by (simp add: byteLength_def utf8Encode_def codePoints_append)

lemma byteLength_marked: "byteLength (s @ truncationMarker) = byteLength s + 44"
proof -
  have "\<not> isLow (hd truncationMarker)"
    by (simp add: truncationMarker_def js_Cons isLow_def)
  then show ?thesis by (simp add: byteLength_append marker_bytes)
qed

text \<open>A cut that falls between two code points stays within the budget.\<close>

lemma trimUtf8_boundary:
  assumes "sliceTo (utf8Encode text) maxBytes = utf8Encode p" and "0 \<le> maxBytes"
  shows "int (byteLength (fst (trimUtf8 text maxBytes))) \<le> maxBytes + int (byteLength truncationMarker)"
proof (cases "int (byteLength text) \<le> maxBytes")
  case True
  then show ?thesis by (simp add: trimUtf8_def)
next
  case False
  have "byteLength p = length (sliceTo (utf8Encode text) maxBytes)"
    by (simp add: byteLength_def assms(1))
  also have "\<dots> \<le> nat maxBytes" using assms(2) by (simp add: sliceTo_def)
  finally have l: "int (byteLength p) \<le> maxBytes" using assms(2) by simp
  have "fst (trimUtf8 text maxBytes) = utf8Decode (utf8Encode p) @ truncationMarker"
    using False by (simp add: trimUtf8_def Let_def assms(1))
  then have "byteLength (fst (trimUtf8 text maxBytes)) = byteLength p + 44"
    by (simp add: byteLength_marked byteLength_roundtrip)
  with l show ?thesis by (simp add: marker_bytes)
qed

lemma decode_partial:
  assumes "wellFormedSeq bs" "0 < k" "k < length bs"
  shows "decodeCodePoints (take k bs) = [0xFFFD]"
proof -
  consider b where "bs = [b]" | b c where "bs = [b, c]" | b c d where "bs = [b, c, d]"
    | b c d e where "bs = [b, c, d, e]"
    using assms(1) unfolding wellFormedSeq_def by (auto split: list.splits)
  then show ?thesis
  proof cases
    case 1
    with assms show ?thesis by simp
  next
    case 2
    with assms have "k = 1" by simp
    with 2 assms(1) show ?thesis by (simp add: wellFormedSeq_def)
  next
    case 3
    with assms have "k = 1 \<or> k = 2" by auto
    with 3 assms(1) show ?thesis by (auto simp: wellFormedSeq_def numeral_2_eq_2)
  next
    case 4
    with assms have "k = 1 \<or> k = 2 \<or> k = 3" by auto
    with 4 assms(1) show ?thesis by (auto simp: wellFormedSeq_def numeral_2_eq_2 numeral_3_eq_3)
  qed
qed


lemma encode_shape:
  assumes "c < 0x110000"
  shows "wellFormedSeq (encodeCodePoint c)"
proof -
  consider "c < 0x80" | "0x80 \<le> c \<and> c < 0x800" | "isSurrogate c"
    | "0x800 \<le> c \<and> c < 0x10000 \<and> \<not> isSurrogate c" | "0x10000 \<le> c"
    by arith
  then show ?thesis
  proof cases
    case 1
    then show ?thesis by (simp add: encodeCodePoint_def wellFormedSeq_def)
  next
    case 2
    then have e: "encodeCodePoint c = [0xC0 + c div 0x40, 0x80 + c mod 0x40]"
      by (simp add: encodeCodePoint_def)
    have lo: "2 \<le> c div 0x40" using 2 by (intro div_ge) simp_all
    have hi: "c div 0x40 < 0x20" using 2 by (intro div_lt) simp
    have m: "c mod 0x40 < 0x40" by simp
    show ?thesis unfolding e using lo hi m by (simp add: wellFormedSeq_def cont_def)
  next
    case 3
    then have e: "encodeCodePoint c = [0xEF, 0xBF, 0xBD]"
      by (simp add: encodeCodePoint_def isSurrogate_def)
    show ?thesis unfolding e by (simp add: wellFormedSeq_def cont_def lower2_def upper2_def)
  next
    case 4
    define q where "q = c div 0x1000"
    define s where "s = c div 0x40 mod 0x40"
    define t where "t = c mod 0x40"
    have e: "encodeCodePoint c = [0xE0 + q, 0x80 + s, 0x80 + t]"
      using 4 by (simp add: encodeCodePoint_def q_def s_def t_def)
    have q: "q < 0x10" unfolding q_def using 4 by (intro div_lt) simp
    have s: "s < 0x40" unfolding s_def by simp
    have t: "t < 0x40" unfolding t_def by simp
    have x: "c div 0x40 = q * 0x40 + s"
    proof -
      have "c div 0x1000 = c div 0x40 div 0x40" by (simp add: div_mult2_eq)
      then show ?thesis unfolding q_def s_def by simp
    qed
    have lo: "q = 0 \<Longrightarrow> 0x20 \<le> s"
    proof -
      assume "q = 0"
      with x have "s = c div 0x40" by simp
      moreover have "0x20 \<le> c div 0x40" using 4 by (intro div_ge) simp_all
      ultimately show ?thesis by simp
    qed
    have hi: "q = 0xD \<Longrightarrow> s < 0x20"
    proof -
      assume "q = 0xD"
      with x have "c div 0x40 = 0x340 + s" by simp
      moreover have "c div 0x1000 < 0xE" using \<open>q = 0xD\<close> unfolding q_def by simp
      then have "c < 0xE000" by (simp add: div_less_iff_less_mult)
      with 4 have "c < 0xD800" by (simp add: isSurrogate_def)
      then have "c div 0x40 < 0x360" by (intro div_lt) simp
      ultimately show ?thesis by simp
    qed
    have c: "cont (lower2 (0xE0 + q)) (upper2 (0xE0 + q)) (0x80 + s)"
      using lo hi s q by (auto simp: cont_def lower2_def upper2_def)
    show ?thesis unfolding e using q c t by (simp add: wellFormedSeq_def cont_def)
  next
    case 5
    define q where "q = c div 0x40000"
    define s where "s = c div 0x1000 mod 0x40"
    define t where "t = c div 0x40 mod 0x40"
    define u where "u = c mod 0x40"
    have ns: "\<not> isSurrogate c" using 5 by (simp add: isSurrogate_def)
    have e: "encodeCodePoint c = [0xF0 + q, 0x80 + s, 0x80 + t, 0x80 + u]"
      using 5 ns by (simp add: encodeCodePoint_def q_def s_def t_def u_def)
    have q: "q < 5" unfolding q_def using assms by (intro div_lt) simp
    have s: "s < 0x40" unfolding s_def by simp
    have t: "t < 0x40" unfolding t_def by simp
    have u: "u < 0x40" unfolding u_def by simp
    have x: "c div 0x1000 = q * 0x40 + s"
    proof -
      have "c div 0x40000 = c div 0x1000 div 0x40" by (simp add: div_mult2_eq)
      then show ?thesis unfolding q_def s_def by simp
    qed
    have lo: "q = 0 \<Longrightarrow> 0x10 \<le> s"
    proof -
      assume "q = 0"
      with x have "s = c div 0x1000" by simp
      moreover have "0x10 \<le> c div 0x1000" using 5 by (intro div_ge) simp_all
      ultimately show ?thesis by simp
    qed
    have hi: "q = 4 \<Longrightarrow> s < 0x10"
    proof -
      assume "q = 4"
      with x have "c div 0x1000 = 0x100 + s" by simp
      moreover have "c div 0x1000 < 0x110" using assms by (intro div_lt) simp
      ultimately show ?thesis by simp
    qed
    have c: "cont (lower2 (0xF0 + q)) (upper2 (0xF0 + q)) (0x80 + s)"
      using lo hi s q by (auto simp: cont_def lower2_def upper2_def)
    show ?thesis unfolding e using q c t u by (simp add: wellFormedSeq_def cont_def)
  qed
qed

lemma encode_nonempty: "encodeCodePoint c \<noteq> []"
  by (simp add: encodeCodePoint_def)

lemma decode_concat_append:
  "\<forall>c\<in>set cs. c < 0x110000 \<Longrightarrow>
   decodeCodePoints (concat (map encodeCodePoint cs) @ r)
     = map (\<lambda>c. if isSurrogate c then 0xFFFD else c) cs @ decodeCodePoints r"
  by (induction cs) (simp_all add: decode_encode del: decodeCodePoints.simps)

text \<open>
  The first \<open>n\<close> bytes of an encoding: the encodings of some of the code points, and
  then nothing, or a proper part of the encoding of one more.
\<close>

lemma take_encoded:
  "\<forall>c\<in>set cs. c < 0x110000 \<Longrightarrow>
   \<exists>cs1 part. take n (concat (map encodeCodePoint cs)) = concat (map encodeCodePoint cs1) @ part \<and>
     (\<forall>c\<in>set cs1. c < 0x110000) \<and>
     (part = [] \<or> decodeCodePoints part = [0xFFFD])"
proof (induction cs arbitrary: n)
  case Nil
  show ?case by (rule exI [of _ "[]"], rule exI [of _ "[]"]) simp
next
  case (Cons c cs)
  then have c: "c < 0x110000" and cs: "\<forall>c\<in>set cs. c < 0x110000" by simp_all
  show ?case
  proof (cases "n < length (encodeCodePoint c)")
    case True
    then have t: "take n (concat (map encodeCodePoint (c # cs))) = take n (encodeCodePoint c)" by simp
    have "take n (encodeCodePoint c) = [] \<or> decodeCodePoints (take n (encodeCodePoint c)) = [0xFFFD]"
    proof (cases "n = 0")
      case True
      then show ?thesis by simp
    next
      case False
      with True decode_partial [OF encode_shape [OF c], of n] show ?thesis by simp
    qed
    with t have "take n (concat (map encodeCodePoint (c # cs))) = concat (map encodeCodePoint []) @ take n (encodeCodePoint c)
        \<and> (\<forall>c\<in>set []. c < (0x110000::nat))
        \<and> (take n (encodeCodePoint c) = [] \<or> decodeCodePoints (take n (encodeCodePoint c)) = [0xFFFD])"
      by simp
    then show ?thesis by blast
  next
    case False
    then have t: "take n (concat (map encodeCodePoint (c # cs)))
        = encodeCodePoint c @ take (n - length (encodeCodePoint c)) (concat (map encodeCodePoint cs))"
      by simp
    from Cons.IH [OF cs, of "n - length (encodeCodePoint c)"] obtain cs1 part where
      i: "take (n - length (encodeCodePoint c)) (concat (map encodeCodePoint cs))
            = concat (map encodeCodePoint cs1) @ part"
         "\<forall>c\<in>set cs1. c < 0x110000" "part = [] \<or> decodeCodePoints part = [0xFFFD]"
      by blast
    from t i(1) have "take n (concat (map encodeCodePoint (c # cs))) = concat (map encodeCodePoint (c # cs1)) @ part"
      by simp
    moreover have "\<forall>c\<in>set (c # cs1). c < 0x110000" using c i(2) by simp
    ultimately show ?thesis using i(3) by blast
  qed
qed

lemma byteLength_of_scalars:
  assumes "\<forall>c\<in>set cs. c < 0x110000 \<and> \<not> isSurrogate c"
  shows "byteLength (concat (map toUnits cs)) = length (concat (map encodeCodePoint cs))"
  unfolding byteLength_codePoints codePoints_concat_toUnits [OF assms] ..

lemma sanitized_length:
  "length (concat (map encodeCodePoint (map (\<lambda>c. if isSurrogate c then 0xFFFD else c) cs)))
     = length (concat (map encodeCodePoint cs))"
  by (simp add: length_concat comp_def encode_sanitized_length)

lemma sanitized_scalars:
  "\<forall>c\<in>set cs. c < 0x110000 \<Longrightarrow>
   \<forall>c\<in>set (map (\<lambda>c. if isSurrogate c then 0xFFFD else c) cs). c < 0x110000 \<and> \<not> isSurrogate c"
  by (auto simp: isSurrogate_def)

text \<open>
  Decoding the first \<open>n\<close> bytes of an encoding gives a string of at most \<open>n + 2\<close> bytes:
  the cut leaves at most one partial sequence, of at least one byte, and the decoder
  puts the three bytes of U+FFFD in its place.
\<close>

lemma encode_fffd: "encodeCodePoint 0xFFFD = [0xEF, 0xBF, 0xBD]"
  by (simp add: encodeCodePoint_def isSurrogate_def)

lemma decode_take_bytes: "byteLength (utf8Decode (take n (utf8Encode s))) \<le> n + 2"
proof -
  let ?f = "\<lambda>c. if isSurrogate c then 0xFFFD else c"
  let ?X = "concat (map encodeCodePoint (codePoints s))"
  have cps: "\<forall>c\<in>set (codePoints s). c < 0x110000" by (auto dest: codePoints_bound)
  from take_encoded [OF cps, of n] obtain cs1 part where
    t: "take n ?X = concat (map encodeCodePoint cs1) @ part" and
    b: "\<forall>c\<in>set cs1. c < 0x110000" and
    p: "part = [] \<or> decodeCodePoints part = [0xFFFD]" by blast
  have "\<forall>b\<in>set ?X. b < 256" by (auto dest: codePoints_bound encode_bytes)
  then have small: "\<forall>b\<in>set (take n ?X). b < 256" by (meson in_set_takeD)
  have e: "take n (utf8Encode s) = map of_nat (take n ?X)"
    by (simp only: utf8Encode_def take_map)
  have u: "map unat (map of_nat (take n ?X) :: byte list) = take n ?X"
    by (rule map_unat_of_nat [OF small])
  have dc: "decodeCodePoints (take n ?X) = map ?f cs1 @ decodeCodePoints part"
    unfolding t by (rule decode_concat_append [OF b])
  have d: "utf8Decode (take n (utf8Encode s)) = concat (map toUnits (map ?f cs1 @ decodeCodePoints part))"
    by (simp only: e utf8Decode_def u dc)
  have len: "length (concat (map encodeCodePoint cs1)) + length part \<le> n"
    using arg_cong [OF t, of length] by simp
  show ?thesis
  proof (cases "part = []")
    case True
    have d': "utf8Decode (take n (utf8Encode s)) = concat (map toUnits (map ?f cs1))"
      unfolding d using True by simp
    have "byteLength (utf8Decode (take n (utf8Encode s))) = length (concat (map encodeCodePoint (map ?f cs1)))"
      unfolding d' by (rule byteLength_of_scalars [OF sanitized_scalars [OF b]])
    then have "byteLength (utf8Decode (take n (utf8Encode s))) = length (concat (map encodeCodePoint cs1))"
      by (simp only: sanitized_length)
    with len show ?thesis by simp
  next
    case False
    with p have dp: "decodeCodePoints part = [0xFFFD]" by simp
    have "\<forall>c\<in>set [0xFFFD :: nat]. c < 0x110000 \<and> \<not> isSurrogate c"
      by (simp add: isSurrogate_def)
    with sanitized_scalars [OF b]
    have sc: "\<forall>c\<in>set (map ?f cs1 @ [0xFFFD]). c < 0x110000 \<and> \<not> isSurrogate c"
      unfolding set_append ball_Un by (rule conjI)
    have "byteLength (utf8Decode (take n (utf8Encode s)))
            = length (concat (map encodeCodePoint (map ?f cs1 @ [0xFFFD])))"
      unfolding d dp by (rule byteLength_of_scalars [OF sc])
    also have "\<dots> = length (concat (map encodeCodePoint (map ?f cs1))) + 3"
      by (simp add: encode_fffd del: map_map)
    also have "\<dots> = length (concat (map encodeCodePoint cs1)) + 3"
      by (simp only: sanitized_length)
    finally have "byteLength (utf8Decode (take n (utf8Encode s))) = length (concat (map encodeCodePoint cs1)) + 3" .
    moreover have "1 \<le> length part" using False by (cases part) simp_all
    ultimately show ?thesis using len by simp
  qed
qed

text \<open>
  What \<open>trimUtf8\<close> guarantees for every text and every budget that is not negative: at
  most two bytes above the budget and the marker.
\<close>

lemma trimUtf8_bound:
  assumes "0 \<le> maxBytes"
  shows "int (byteLength (fst (trimUtf8 text maxBytes))) \<le> maxBytes + 2 + int (byteLength truncationMarker)"
proof (cases "int (byteLength text) \<le> maxBytes")
  case True
  then show ?thesis by (simp add: trimUtf8_def)
next
  case False
  have "fst (trimUtf8 text maxBytes) = utf8Decode (take (nat maxBytes) (utf8Encode text)) @ truncationMarker"
    using False assms by (simp add: trimUtf8_def Let_def sliceTo_def)
  then have "byteLength (fst (trimUtf8 text maxBytes))
      = byteLength (utf8Decode (take (nat maxBytes) (utf8Encode text))) + 44"
    by (simp add: byteLength_marked)
  with decode_take_bytes [of "nat maxBytes" "text"] assms show ?thesis
    by (simp add: marker_bytes)
qed

subsection \<open>The byte budget of the diff\<close>

lemma trim_Nil: "trim [] = []" by (simp add: trim_def)

lemma clean_a: "trim (js ''a'') = js ''a''"
  by (simp add: trim_def js_Cons js_Nil isWhiteSpace_def)

lemma parse_a: "parseLines (js ''a'') = [js ''a'']"
  by (simp add: parseLines_def trim_def js_Cons js_Nil isWhiteSpace_def)

lemma oneFile_exec:
  "oneFileExec text statusArgs = ExecResult None [] []"
  "oneFileExec text stagedNamesArgs = ExecResult None (js ''a'') []"
  "oneFileExec text unstagedNamesArgs = ExecResult None [] []"
  "oneFileExec text untrackedNamesArgs = ExecResult None [] []"
  "oneFileExec text (stagedDiffArgs (js ''a'')) = ExecResult None text []"
  by (simp_all add: oneFileExec_def argdefs js_Cons js_Nil)

lemma oneFile_runGit:
  "runGit (oneFilePlatform text) args repo tm tr =
     (tr @ [args], case gitFailure args (oneFileExec text args) of Some failure \<Rightarrow> Inl failure
                   | None \<Rightarrow> Inr (trim (stdout (oneFileExec text args))))"
  by (simp add: runGit_def oneFilePlatform_def examplePlatform_def Let_def)

lemma oneFile_lists:
  "collectLists (oneFilePlatform text) (js ''/r'') cfg =
     (if includeOnlyStaged cfg then [statusArgs, stagedNamesArgs]
      else [statusArgs, stagedNamesArgs, unstagedNamesArgs, untrackedNamesArgs],
      Inr ([], [js ''a''], [], []))"
  by (simp add: collectLists_def oneFile_runGit oneFile_exec gitFailure_def trim_Nil clean_a parse_a
      parseLines_Nil)

lemma oneFile_merged: "allChangedFilesOf [js ''a''] [] [] = [js ''a'']"
  by (simp add: allChangedFilesOf_def uniqueLines_def)

lemma oneFile_limited:
  "limitedFilesOf exampleConfig [js ''a''] = [js ''a'']"
  "limitedFilesOf noTruncConfig [js ''a''] = [js ''a'']"
  by (simp_all add: limitedFilesOf_def sliceTo_def exampleConfig_def noTruncConfig_def)

lemma oneFile_sections:
  "trim text = text \<Longrightarrow> text \<noteq> [] \<Longrightarrow>
   fileSections (oneFilePlatform text) (js ''/r'') cfg {js ''a''} {} {} (js ''a'') tr =
     (tr @ [stagedDiffArgs (js ''a'')], Inr [js ''# Staged diff\<newline>'' @ text])"
  by (simp add: fileSections_def oneFile_runGit oneFile_exec gitFailure_def)

lemma oneFile_block:
  "fileBlock (js ''a'') [js ''# Staged diff\<newline>'' @ text] = oneFileHeader @ text"
  by (simp add: fileBlock_def oneFileHeader_def js_Cons js_Nil)

lemma oneFile_loop:
  "trim text = text \<Longrightarrow> text \<noteq> [] \<Longrightarrow>
   fileLoop (oneFilePlatform text) (js ''/r'') cfg {js ''a''} {} {} [js ''a''] [] tr =
     (tr @ [stagedDiffArgs (js ''a'')], Inr [oneFileHeader @ text])"
  by (simp add: oneFile_sections oneFile_block)

lemma oneFile_parts:
  assumes "trim text = text" "text \<noteq> []"
  shows "collectDiffParts (oneFilePlatform text) (js ''/r'') exampleConfig [js ''a''] [] [] tr =
     (tr @ [stagedDiffArgs (js ''a'')], Inr [oneFileHeader @ text])"
    and "collectDiffParts (oneFilePlatform text) (js ''/r'') noTruncConfig [js ''a''] [] [] tr =
     (tr @ [stagedDiffArgs (js ''a'')], Inr [oneFileHeader @ text])"
  unfolding collectDiffParts_def oneFile_merged oneFile_limited
  by (simp_all add: oneFile_loop [OF assms] del: fileLoop.simps)

lemma oneFile_collect:
  assumes "trim text = text" "text \<noteq> []"
  shows "collectRepositoryChanges (oneFilePlatform text) (js ''/r'') exampleConfig =
     ([statusArgs, stagedNamesArgs, unstagedNamesArgs, untrackedNamesArgs, stagedDiffArgs (js ''a'')],
      Inr \<lparr> status = [], diff = fst (trimUtf8 (oneFileHeader @ text) 4096),
             wasTruncated = snd (trimUtf8 (oneFileHeader @ text) 4096), wasFileLimited = False,
             totalChangedFiles = 1, includedChangedFiles = 1 \<rparr>)"
    and "collectRepositoryChanges (oneFilePlatform text) (js ''/r'') noTruncConfig =
     ([statusArgs, stagedNamesArgs, unstagedNamesArgs, untrackedNamesArgs, stagedDiffArgs (js ''a'')],
      Inr \<lparr> status = [], diff = oneFileHeader @ text, wasTruncated = False, wasFileLimited = False,
             totalChangedFiles = 1, includedChangedFiles = 1 \<rparr>)"
proof -
  have i: "\<not> includeOnlyStaged exampleConfig" "truncateDiff exampleConfig" "maxDiffBytes exampleConfig = 4096"
     "\<not> includeOnlyStaged noTruncConfig" "\<not> truncateDiff noTruncConfig"
    by (simp_all add: noTruncConfig_def exampleConfig_def)
  show "collectRepositoryChanges (oneFilePlatform text) (js ''/r'') exampleConfig =
     ([statusArgs, stagedNamesArgs, unstagedNamesArgs, untrackedNamesArgs, stagedDiffArgs (js ''a'')],
      Inr \<lparr> status = [], diff = fst (trimUtf8 (oneFileHeader @ text) 4096),
             wasTruncated = snd (trimUtf8 (oneFileHeader @ text) 4096), wasFileLimited = False,
             totalChangedFiles = 1, includedChangedFiles = 1 \<rparr>)"
    unfolding collectRepositoryChanges_def oneFile_lists
    by (simp add: i oneFile_parts [OF assms] oneFile_merged oneFile_limited Let_def)
  show "collectRepositoryChanges (oneFilePlatform text) (js ''/r'') noTruncConfig =
     ([statusArgs, stagedNamesArgs, unstagedNamesArgs, untrackedNamesArgs, stagedDiffArgs (js ''a'')],
      Inr \<lparr> status = [], diff = oneFileHeader @ text, wasTruncated = False, wasFileLimited = False,
             totalChangedFiles = 1, includedChangedFiles = 1 \<rparr>)"
    unfolding collectRepositoryChanges_def oneFile_lists
    by (simp add: i oneFile_parts [OF assms] oneFile_merged oneFile_limited Let_def)
qed

lemma header_ascii: "\<forall>u\<in>set oneFileHeader. u < 0x80"
  by (simp add: oneFileHeader_def js_Cons js_Nil)

lemma header_length: "length oneFileHeader = 19"
  by (simp add: oneFileHeader_def js_def)

lemma bigText_clean: "trim bigText = bigText" "bigText \<noteq> []"
proof -
  show "trim bigText = bigText"
    by (rule clean_trim) (simp add: cleanEntry_def bigText_def isWhiteSpace_def)
  show "bigText \<noteq> []" by (simp add: bigText_def)
qed

lemma splitText_clean: "trim splitText = splitText" "splitText \<noteq> []"
proof -
  show "trim splitText = splitText"
    by (rule clean_trim) (simp add: cleanEntry_def splitText_def isWhiteSpace_def)
  show "splitText \<noteq> []" by (simp add: splitText_def)
qed

lemma big_diff_bytes: "byteLength (oneFileHeader @ bigText) = 5019"
proof -
  have "\<forall>u\<in>set (oneFileHeader @ bigText). u < 0x80"
    using header_ascii by (auto simp: bigText_def)
  then have "byteLength (oneFileHeader @ bigText) = length (oneFileHeader @ bigText)"
    by (rule byteLength_ascii)
  then show ?thesis by (simp add: header_length bigText_def)
qed

lemma big_collect_notrunc:
  "collectRepositoryChanges (oneFilePlatform bigText) (js ''/r'') noTruncConfig =
     ([statusArgs, stagedNamesArgs, unstagedNamesArgs, untrackedNamesArgs, stagedDiffArgs (js ''a'')],
      Inr bigSnapshot)"
  unfolding bigSnapshot_def by (rule oneFile_collect(2) [OF bigText_clean])


lemma utf8Encode_ascii: "\<forall>u\<in>set p. u < 0x80 \<Longrightarrow> utf8Encode p = map ucast p"
  using utf8Encode_append_nohigh [of p "[]"] by (simp add: utf8Encode_def)

lemma big_sliced:
  "sliceTo (utf8Encode (oneFileHeader @ bigText)) 4096 = utf8Encode (oneFileHeader @ replicate 4077 0x78)"
proof -
  have 1: "\<forall>u\<in>set (oneFileHeader @ bigText). u < 0x80"
    using header_ascii by (auto simp: bigText_def)
  have 2: "\<forall>u\<in>set (oneFileHeader @ replicate 4077 0x78). u < 0x80"
    using header_ascii by auto
  show ?thesis
    unfolding utf8Encode_ascii [OF 1] utf8Encode_ascii [OF 2]
    by (simp add: sliceTo_def header_length bigText_def)
qed

lemma utf8Decode_utf8Encode_ascii:
  assumes "\<forall>u\<in>set p. u < 0x80"
  shows "utf8Decode (utf8Encode p) = p"
proof -
  have 3: "\<forall>b\<in>set (map ucast p :: byte list). b < 0x80"
    using assms by (auto dest: ucast_lt)
  have 4: "map ucast (map ucast p :: byte list) = p"
    using assms by (induction p) (simp_all add: ucast_back)
  have "utf8Decode (map ucast p :: byte list) = map ucast (map ucast p :: byte list)"
    using utf8Decode_append_ascii [OF 3, of "[]"] by (simp add: utf8Decode_def)
  then show ?thesis unfolding utf8Encode_ascii [OF assms] 4 .
qed

lemma big_decoded:
  "utf8Decode (utf8Encode (oneFileHeader @ replicate 4077 0x78)) = oneFileHeader @ replicate 4077 0x78"
proof -
  have "\<forall>u\<in>set (oneFileHeader @ replicate 4077 0x78). u < 0x80"
    using header_ascii by auto
  then show ?thesis by (rule utf8Decode_utf8Encode_ascii)
qed

lemma big_trimmed:
  "trimUtf8 (oneFileHeader @ bigText) 4096 = (oneFileHeader @ replicate 4077 0x78 @ truncationMarker, True)"
  by (simp add: trimUtf8_def Let_def big_diff_bytes big_sliced big_decoded)

lemma big_collect_trunc:
  "collectRepositoryChanges (oneFilePlatform bigText) (js ''/r'') exampleConfig =
     ([statusArgs, stagedNamesArgs, unstagedNamesArgs, untrackedNamesArgs, stagedDiffArgs (js ''a'')],
      Inr truncatedSnapshot)"
  unfolding truncatedSnapshot_def using oneFile_collect(1) [OF bigText_clean] by (simp add: big_trimmed)

lemma split_trimmed:
  "trimUtf8 (oneFileHeader @ splitText) 4096
     = (oneFileHeader @ replicate 4076 0x78 @ [0xFFFD] @ truncationMarker, True)"
proof -
  have a: "\<forall>u\<in>set (oneFileHeader @ replicate 4076 0x78). u < 0x80"
    using header_ascii by auto
  from trimUtf8_inside_ascii [OF a] show ?thesis
    by (simp add: splitText_def header_length)
qed

lemma split_bytes:
  "byteLength (oneFileHeader @ replicate 4076 0x78 @ [0xFFFD] @ truncationMarker) = 4142"
proof -
  have a: "\<forall>u\<in>set (oneFileHeader @ replicate 4076 0x78). u < 0x80"
    using header_ascii by auto
  from trimUtf8_inside_ascii_bytes [OF a] show ?thesis
    by (simp add: split_trimmed [unfolded splitText_def] header_length marker_bytes)
qed

lemma split_collect:
  "collectRepositoryChanges (oneFilePlatform splitText) (js ''/r'') exampleConfig =
     ([statusArgs, stagedNamesArgs, unstagedNamesArgs, untrackedNamesArgs, stagedDiffArgs (js ''a'')],
      Inr splitSnapshot)"
  unfolding splitSnapshot_def using oneFile_collect(1) [OF splitText_clean] by (simp add: split_trimmed)

text \<open>
  C1 as stated fails: with \<open>truncateDiff\<close> off the diff is the merged text, here 5019
  bytes for a budget of 4096 and a marker of 44.
\<close>

theorem C1_diff_budget_counterexample:
  "snd (collectRepositoryChanges (oneFilePlatform bigText) (js ''/r'') noTruncConfig) = Inr bigSnapshot \<and>
   4096 \<le> maxDiffBytes noTruncConfig \<and>
   \<not> int (byteLength (diff bigSnapshot)) \<le> maxDiffBytes noTruncConfig + int (byteLength truncationMarker)"
proof -
  have m: "maxDiffBytes noTruncConfig = 4096"
    by (simp add: noTruncConfig_def exampleConfig_def)
  have d: "byteLength (diff bigSnapshot) = 5019"
    by (simp add: bigSnapshot_def big_diff_bytes)
  show ?thesis
    by (simp add: big_collect_notrunc m d marker_bytes)
qed

text \<open>
  C1, amended. For a returned snapshot, with \<open>parts\<close> the blocks the loop rendered:
  when \<open>truncateDiff\<close> is on, the budget is not negative, and the first \<open>maxDiffBytes\<close>
  bytes of the merged text are themselves the encoding of a string (the cut falls
  between two code points, or the text fits), the UTF-8 length of \<open>diff\<close> is at most
  \<open>maxDiffBytes\<close> plus the length of the marker. When \<open>truncateDiff\<close> is off, \<open>diff\<close> is
  the merged text whatever its size, and \<open>wasTruncated\<close> is false.
\<close>

theorem C1_diff_budget:
  assumes "collectRepositoryChanges w repo cfg = (tr, Inr snap)"
    and "collectLists w repo cfg = (t4, Inr (st, sf, uf, utf))"
    and "collectDiffParts w repo cfg sf uf utf t4 = (tr, Inr parts)"
  shows "(truncateDiff cfg \<and> 0 \<le> maxDiffBytes cfg \<and>
          sliceTo (utf8Encode (join (js ''\<newline>\<newline>'') parts)) (maxDiffBytes cfg) = utf8Encode p \<longrightarrow>
            int (byteLength (diff snap)) \<le> maxDiffBytes cfg + int (byteLength truncationMarker)) \<and>
         (\<not> truncateDiff cfg \<longrightarrow> diff snap = join (js ''\<newline>\<newline>'') parts \<and> \<not> wasTruncated snap)"
proof -
  from collect_success [OF assms(1)] assms(2) assms(3) have
    d: "diff snap = (if truncateDiff cfg
                        then fst (trimUtf8 (join (js ''\<newline>\<newline>'') parts) (maxDiffBytes cfg))
                        else join (js ''\<newline>\<newline>'') parts)" and
    t: "wasTruncated snap = (truncateDiff cfg \<and>
                        snd (trimUtf8 (join (js ''\<newline>\<newline>'') parts) (maxDiffBytes cfg)))"
    by auto
  have a: "truncateDiff cfg \<and> 0 \<le> maxDiffBytes cfg \<and>
          sliceTo (utf8Encode (join (js ''\<newline>\<newline>'') parts)) (maxDiffBytes cfg) = utf8Encode p \<longrightarrow>
            int (byteLength (diff snap)) \<le> maxDiffBytes cfg + int (byteLength truncationMarker)"
    using d trimUtf8_boundary [of "join (js ''\<newline>\<newline>'') parts" "maxDiffBytes cfg" p] by simp
  have b: "\<not> truncateDiff cfg \<longrightarrow> diff snap = join (js ''\<newline>\<newline>'') parts \<and> \<not> wasTruncated snap"
    using d t by simp
  from a b show ?thesis by blast
qed

theorem C1_diff_budget_witness:
  "int (byteLength (diff truncatedSnapshot)) \<le> maxDiffBytes exampleConfig + int (byteLength truncationMarker) \<and>
   wasTruncated truncatedSnapshot \<and>
   diff bigSnapshot = join (js ''\<newline>\<newline>'') [oneFileHeader @ bigText] \<and>
   \<not> wasTruncated bigSnapshot"
proof -
  have l1: "collectLists (oneFilePlatform bigText) (js ''/r'') exampleConfig =
     ([statusArgs, stagedNamesArgs, unstagedNamesArgs, untrackedNamesArgs], Inr ([], [js ''a''], [], []))"
    by (simp add: oneFile_lists exampleConfig_def)
  have l2: "collectLists (oneFilePlatform bigText) (js ''/r'') noTruncConfig =
     ([statusArgs, stagedNamesArgs, unstagedNamesArgs, untrackedNamesArgs], Inr ([], [js ''a''], [], []))"
    by (simp add: oneFile_lists noTruncConfig_def exampleConfig_def)
  have p1: "collectDiffParts (oneFilePlatform bigText) (js ''/r'') exampleConfig [js ''a''] [] []
               [statusArgs, stagedNamesArgs, unstagedNamesArgs, untrackedNamesArgs] =
     ([statusArgs, stagedNamesArgs, unstagedNamesArgs, untrackedNamesArgs, stagedDiffArgs (js ''a'')],
      Inr [oneFileHeader @ bigText])"
    by (simp add: oneFile_parts [OF bigText_clean])
  have p2: "collectDiffParts (oneFilePlatform bigText) (js ''/r'') noTruncConfig [js ''a''] [] []
               [statusArgs, stagedNamesArgs, unstagedNamesArgs, untrackedNamesArgs] =
     ([statusArgs, stagedNamesArgs, unstagedNamesArgs, untrackedNamesArgs, stagedDiffArgs (js ''a'')],
      Inr [oneFileHeader @ bigText])"
    by (simp add: oneFile_parts [OF bigText_clean])
  have c: "truncateDiff exampleConfig" "0 \<le> maxDiffBytes exampleConfig" "maxDiffBytes exampleConfig = 4096"
    "\<not> truncateDiff noTruncConfig"
    by (simp_all add: exampleConfig_def noTruncConfig_def)
  have s: "sliceTo (utf8Encode (join (js ''\<newline>\<newline>'') [oneFileHeader @ bigText]))
             (maxDiffBytes exampleConfig)
           = utf8Encode (oneFileHeader @ replicate 4077 0x78)"
    by (simp add: c big_sliced)
  from C1_diff_budget [OF big_collect_trunc l1 p1, of "oneFileHeader @ replicate 4077 0x78"]
    C1_diff_budget [OF big_collect_notrunc l2 p2] c s
  show ?thesis by (simp add: truncatedSnapshot_def)
qed

text \<open>
  Without the condition on the cut: with \<open>truncateDiff\<close> on and a budget that is not
  negative, the diff of a returned snapshot is at most two bytes above the budget and
  the marker.
\<close>

lemma diff_within_two_bytes:
  assumes "collectRepositoryChanges w repo cfg = (tr, Inr snap)" and "truncateDiff cfg"
    and "0 \<le> maxDiffBytes cfg"
  shows "int (byteLength (diff snap)) \<le> maxDiffBytes cfg + 2 + int (byteLength truncationMarker)"
proof -
  from collect_success [OF assms(1)] assms(2) obtain parts where
    "diff snap = fst (trimUtf8 (join (js ''\<newline>\<newline>'') parts) (maxDiffBytes cfg))"
    by auto
  with trimUtf8_bound [OF assms(3)] show ?thesis by simp
qed

text \<open>
  C2. \<open>trimUtf8\<close> does not drop a code point that the cut splits: the decoder puts
  U+FFFD in its place. The merged text here is the header of the block of \<open>a\<close>, 4076
  letters \<open>x\<close> and U+00E9, 4097 bytes; with a budget of 4096 the cut falls after the
  first of the two bytes of U+00E9. The result is the 4095 characters before it, U+FFFD
  and the marker: not the 4095 characters and the marker, and 2 bytes more than the
  budget and the marker. The collection returns it as the diff.
\<close>

theorem C2_trimUtf8_splits_code_point:
  "byteLength (oneFileHeader @ splitText) = 4097 \<and>
   take 4096 (utf8Encode (oneFileHeader @ splitText)) = utf8Encode (oneFileHeader @ replicate 4076 0x78) @ [0xC3] \<and>
   trimUtf8 (oneFileHeader @ splitText) 4096
     = (oneFileHeader @ replicate 4076 0x78 @ [0xFFFD] @ truncationMarker, True) \<and>
   fst (trimUtf8 (oneFileHeader @ splitText) 4096) \<noteq> oneFileHeader @ replicate 4076 0x78 @ truncationMarker \<and>
   byteLength (fst (trimUtf8 (oneFileHeader @ splitText) 4096)) = 4096 + 2 + byteLength truncationMarker \<and>
   snd (collectRepositoryChanges (oneFilePlatform splitText) (js ''/r'') exampleConfig) = Inr splitSnapshot \<and>
   diff splitSnapshot = fst (trimUtf8 (oneFileHeader @ splitText) 4096)"
proof -
  have a: "\<forall>u\<in>set (oneFileHeader @ replicate 4076 0x78). u < 0x80"
    using header_ascii by auto
  have e: "utf8Encode (oneFileHeader @ splitText) = map ucast (oneFileHeader @ replicate 4076 0x78) @ [0xC3, 0xA9]"
    using utf8Encode_append_nohigh [OF a, of "[0xE9]"] by (simp add: utf8Encode_e9 splitText_def)
  have 1: "byteLength (oneFileHeader @ splitText) = 4097"
    unfolding byteLength_def e by (simp add: header_length)
  have 2: "take 4096 (utf8Encode (oneFileHeader @ splitText))
             = utf8Encode (oneFileHeader @ replicate 4076 0x78) @ [0xC3]"
    unfolding e utf8Encode_ascii [OF a] by (simp add: header_length)
  have 4: "fst (trimUtf8 (oneFileHeader @ splitText) 4096) \<noteq> oneFileHeader @ replicate 4076 0x78 @ truncationMarker"
    unfolding split_trimmed by simp
  have 5: "byteLength (fst (trimUtf8 (oneFileHeader @ splitText) 4096)) = 4096 + 2 + byteLength truncationMarker"
    unfolding split_trimmed using split_bytes by (simp add: marker_bytes)
  have 6: "snd (collectRepositoryChanges (oneFilePlatform splitText) (js ''/r'') exampleConfig) = Inr splitSnapshot"
    by (simp add: split_collect)
  have 7: "diff splitSnapshot = fst (trimUtf8 (oneFileHeader @ splitText) 4096)"
    unfolding split_trimmed by (simp add: splitSnapshot_def)
  from 1 2 split_trimmed 4 5 6 7 show ?thesis by blast
qed

end
